theory Spec2Isabelle
  imports Complex_Main "HOL-Library.Sublist"
begin

section \<open>Python values\<close>

text \<open>
  The validator and the cache work on JSON documents decoded into Python values
  (\<^verbatim>\<open>Dict[str, Any]\<close>). A dictionary is an association list: Python dictionaries
  keep insertion order, and the validator iterates the schema in that order. A
  well-formed dictionary has pairwise distinct keys; \<open>dict_get\<close> reads the first
  entry of a key.

  A Python \<^verbatim>\<open>float\<close> is modelled by the number it denotes (a rational, an infinity
  or NaN) together with the text \<^verbatim>\<open>str()\<close> prints for it. Rounding to binary64 is
  not modelled. Strings are the UTF-8 bytes of Python's strings; \<open>py_len\<close> counts the
  code points. Character classes (white space, digits) are the ASCII ones; the
  theorems that depend on them are stated for ASCII text (\<open>is_ascii\<close>).
\<close>

datatype pyfloat = Fin rat | PosInf | NegInf | NaN

datatype pyval =
    PNone
  | PBool bool
  | PInt int
  | PFloat pyfloat string
  | PStr string
  | PList "pyval list"
  | PDict "(string \<times> pyval) list"

datatype py_error = AttributeError | TypeError | ValueError

text \<open>\<^verbatim>\<open>d.get(key, default)\<close>.\<close>

definition dict_get :: "(string \<times> pyval) list \<Rightarrow> string \<Rightarrow> pyval \<Rightarrow> pyval" where
  "dict_get d k dflt = (case map_of d k of None \<Rightarrow> dflt | Some v \<Rightarrow> v)"

text \<open>Truth value testing: \<^verbatim>\<open>if value:\<close> and \<^verbatim>\<open>not value\<close>.\<close>

fun py_truthy :: "pyval \<Rightarrow> bool" where
  "py_truthy PNone = False"
| "py_truthy (PBool b) = b"
| "py_truthy (PInt i) = (i \<noteq> 0)"
| "py_truthy (PFloat f r) = (f \<noteq> Fin 0)"
| "py_truthy (PStr s) = (s \<noteq> [])"
| "py_truthy (PList xs) = (xs \<noteq> [])"
| "py_truthy (PDict kvs) = (kvs \<noteq> [])"

subsection \<open>\<^verbatim>\<open>str()\<close> and \<^verbatim>\<open>repr()\<close>\<close>

fun show_nat :: "nat \<Rightarrow> string" where
  "show_nat n =
     (if n < 10 then [char_of (48 + n)]
      else show_nat (n div 10) @ [char_of (48 + n mod 10)])"

definition show_int :: "int \<Rightarrow> string" where
  "show_int i = (if i < 0 then CHR ''-'' # show_nat (nat (- i)) else show_nat (nat i))"

definition hex_digit :: "nat \<Rightarrow> char" where
  "hex_digit d = (if d < 10 then char_of (48 + d) else char_of (87 + d))"

text \<open>
  One character of \<^verbatim>\<open>repr\<close> of a string inside the quote \<open>q\<close>. Bytes from 0x80
  on (the UTF-8 encoding of non-ASCII text) are kept, as Python keeps printable
  non-ASCII characters.
\<close>

definition repr_char :: "char \<Rightarrow> char \<Rightarrow> string" where
  "repr_char q c =
     (if c = CHR 0x5C then [CHR 0x5C, CHR 0x5C]
      else if c = q then [CHR 0x5C, q]
      else if c = CHR 0x0A then [CHR 0x5C, CHR ''n'']
      else if c = CHR 0x0D then [CHR 0x5C, CHR ''r'']
      else if c = CHR 0x09 then [CHR 0x5C, CHR ''t'']
      else if (of_char c :: nat) < 32 \<or> (of_char c :: nat) = 127
        then [CHR 0x5C, CHR ''x'', hex_digit (of_char c div 16), hex_digit (of_char c mod 16)]
      else [c])"

definition repr_str :: "string \<Rightarrow> string" where
  "repr_str s =
     (let q = (if CHR 0x27 \<in> set s \<and> CHR 0x22 \<notin> set s then CHR 0x22 else CHR 0x27)
      in q # concat (map (repr_char q) s) @ [q])"

text \<open>\<^verbatim>\<open>sep.join(parts)\<close>.\<close>

fun py_join :: "string \<Rightarrow> string list \<Rightarrow> string" where
  "py_join sep [] = []"
| "py_join sep [x] = x"
| "py_join sep (x # y # ys) = x @ sep @ py_join sep (y # ys)"

fun py_repr :: "pyval \<Rightarrow> string" where
  "py_repr PNone = ''None''"
| "py_repr (PBool b) = (if b then ''True'' else ''False'')"
| "py_repr (PInt i) = show_int i"
| "py_repr (PFloat f r) = r"
| "py_repr (PStr s) = repr_str s"
| "py_repr (PList xs) = ''['' @ py_join '', '' (map py_repr xs) @ '']''"
| "py_repr (PDict kvs) =
     ''{'' @ py_join '', '' (map (\<lambda>kv. repr_str (fst kv) @ '': '' @ py_repr (snd kv)) kvs) @ ''}''"

definition py_str :: "pyval \<Rightarrow> string" where
  "py_str v = (case v of PStr s \<Rightarrow> s | _ \<Rightarrow> py_repr v)"

subsection \<open>String methods\<close>

text \<open>
  \<^verbatim>\<open>len(s)\<close>: the number of code points, that is of the bytes that do not continue
  a UTF-8 sequence.
\<close>

definition py_len :: "string \<Rightarrow> nat" where
  "py_len s = length (filter (\<lambda>c. \<not> (128 \<le> (of_char c :: nat) \<and> (of_char c :: nat) < 192)) s)"

definition is_ascii :: "string \<Rightarrow> bool" where
  "is_ascii s = (\<forall>c \<in> set s. (of_char c :: nat) < 128)"

text \<open>The ASCII characters \<^verbatim>\<open>str.strip()\<close> removes.\<close>

definition is_space :: "char \<Rightarrow> bool" where
  "is_space c = (c \<in> set [CHR 0x09, CHR 0x0A, CHR 0x0B, CHR 0x0C, CHR 0x0D,
                            CHR 0x1C, CHR 0x1D, CHR 0x1E, CHR 0x1F, CHR 0x20])"

definition py_strip :: "string \<Rightarrow> string" where
  "py_strip s = rev (dropWhile is_space (rev (dropWhile is_space s)))"

text \<open>\<^verbatim>\<open>sub in s\<close> on strings: \<open>sub\<close> occurs as a contiguous substring.\<close>

fun str_contains :: "string \<Rightarrow> string \<Rightarrow> bool" where
  "str_contains sub [] = (sub = [])"
| "str_contains sub (c # cs) = (prefix sub (c # cs) \<or> str_contains sub cs)"

text \<open>\<^verbatim>\<open>s.split(sep)\<close> for a one-character separator; the result is never empty.\<close>

fun py_split :: "char \<Rightarrow> string \<Rightarrow> string list" where
  "py_split sep [] = [[]]"
| "py_split sep (c # cs) =
     (if c = sep then [] # py_split sep cs
      else (case py_split sep cs of [] \<Rightarrow> [[c]] | w # ws \<Rightarrow> (c # w) # ws))"

subsection \<open>Numbers\<close>

definition is_digit :: "char \<Rightarrow> bool" where
  "is_digit c = (c \<in> set ''0123456789'')"

definition digit_val :: "char \<Rightarrow> nat" where
  "digit_val c = of_char c - 48"

text \<open>\<^verbatim>\<open>digitpart ::= digit (["_"] digit)*\<close> of Python's float grammar.\<close>

fun digitpart :: "string \<Rightarrow> bool" where
  "digitpart [] = False"
| "digitpart [c] = is_digit c"
| "digitpart (c # d # cs) =
     (is_digit c \<and> (if d = CHR ''_'' then digitpart cs else digitpart (d # cs)))"

definition digits_nat :: "string \<Rightarrow> nat" where
  "digits_nat s = foldl (\<lambda>a c. 10 * a + digit_val c) 0 (filter is_digit s)"

definition lower_char :: "char \<Rightarrow> char" where
  "lower_char c =
     (if 65 \<le> (of_char c :: nat) \<and> (of_char c :: nat) \<le> 90 then char_of (of_char c + 32 :: nat) else c)"

text \<open>The exponent of a float literal: an optional sign and a digitpart.\<close>

definition parse_exponent :: "string \<Rightarrow> int option" where
  "parse_exponent e =
     (case e of
        [] \<Rightarrow> None
      | c # r \<Rightarrow>
          if c = CHR ''-'' then (if digitpart r then Some (- int (digits_nat r)) else None)
          else if c = CHR ''+'' then (if digitpart r then Some (int (digits_nat r)) else None)
          else if digitpart e then Some (int (digits_nat e)) else None)"

text \<open>The mantissa: \<^verbatim>\<open>digitpart\<close>, or \<^verbatim>\<open>[digitpart] "." [digitpart]\<close> with a digit on one side.\<close>

definition parse_mantissa :: "string \<Rightarrow> rat option" where
  "parse_mantissa m =
     (let ip = takeWhile (\<lambda>c. c \<noteq> CHR ''.'') m; rest = dropWhile (\<lambda>c. c \<noteq> CHR ''.'') m
      in case rest of
           [] \<Rightarrow> if digitpart ip then Some (of_nat (digits_nat ip)) else None
         | _ # fp \<Rightarrow>
             if (ip = [] \<or> digitpart ip) \<and> (fp = [] \<or> digitpart fp) \<and> \<not> (ip = [] \<and> fp = [])
             then Some (of_nat (digits_nat ip)
                        + of_nat (digits_nat fp) / 10 ^ length (filter is_digit fp))
             else None)"

definition parse_decimal :: "string \<Rightarrow> rat option" where
  "parse_decimal body =
     (let is_e = (\<lambda>c. c = CHR ''e'' \<or> c = CHR ''E'');
          m = takeWhile (\<lambda>c. \<not> is_e c) body; rest = dropWhile (\<lambda>c. \<not> is_e c) body
      in case parse_mantissa m of
           None \<Rightarrow> None
         | Some q \<Rightarrow>
             (case rest of
                [] \<Rightarrow> Some q
              | _ # e \<Rightarrow>
                  (case parse_exponent e of
                     None \<Rightarrow> None
                   | Some x \<Rightarrow> Some (if x < 0 then q / 10 ^ nat (- x) else q * 10 ^ nat x))))"

text \<open>
  \<^verbatim>\<open>float(s)\<close>: \<open>None\<close> is Python's \<^verbatim>\<open>ValueError\<close>. The literal denotes its exact
  value (no rounding, no overflow to infinity).
\<close>

definition py_float :: "string \<Rightarrow> pyfloat option" where
  "py_float s0 =
     (let s = py_strip s0;
          neg = (case s of [] \<Rightarrow> False | c # r \<Rightarrow> c = CHR ''-'');
          body = (case s of [] \<Rightarrow> [] | c # r \<Rightarrow> if c = CHR ''-'' \<or> c = CHR ''+'' then r else s);
          low = map lower_char body
      in if low = ''inf'' \<or> low = ''infinity'' then Some (if neg then NegInf else PosInf)
         else if low = ''nan'' then Some NaN
         else (case parse_decimal body of
                 None \<Rightarrow> None
               | Some q \<Rightarrow> Some (Fin (if neg then - q else q))))"

text \<open>The number a value denotes in a comparison; \<open>None\<close> when it is not a number.\<close>

fun py_num :: "pyval \<Rightarrow> pyfloat option" where
  "py_num (PInt i) = Some (Fin (of_int i))"
| "py_num (PBool b) = Some (Fin (if b then 1 else 0))"
| "py_num (PFloat f r) = Some f"
| "py_num _ = None"

fun fl_less :: "pyfloat \<Rightarrow> pyfloat \<Rightarrow> bool" where
  "fl_less (Fin a) (Fin b) = (a < b)"
| "fl_less (Fin a) PosInf = True"
| "fl_less NegInf (Fin b) = True"
| "fl_less NegInf PosInf = True"
| "fl_less _ _ = False"

text \<open>\<^verbatim>\<open>a < b\<close> and \<^verbatim>\<open>a > b\<close> with a number on the left: \<open>None\<close> is \<^verbatim>\<open>TypeError\<close>.\<close>

definition num_lt :: "pyfloat \<Rightarrow> pyval \<Rightarrow> bool option" where
  "num_lt a v = (case py_num v of None \<Rightarrow> None | Some b \<Rightarrow> Some (fl_less a b))"

definition num_gt :: "pyfloat \<Rightarrow> pyval \<Rightarrow> bool option" where
  "num_gt a v = (case py_num v of None \<Rightarrow> None | Some b \<Rightarrow> Some (fl_less b a))"

subsection \<open>\<^verbatim>\<open>datetime.strptime(s, "%Y-%m-%d")\<close>\<close>

text \<open>
  The standard library compiles the format into the regular expression
  \<^verbatim>\<open>(?P<Y>\d\d\d\d)-(?P<m>1[0-2]|0[1-9]|[1-9])-(?P<d>3[0-1]|[1-2]\d|0[1-9]|[1-9]| [1-9])\<close>,
  takes its first match at the start of the string, fails when text remains after
  the match, and then builds the date, which fails for year 0 and for a day the
  month does not have. \<open>month_alts\<close> and \<open>day_alts\<close> list, in the order the
  alternatives are tried, the value and the remaining text of each alternative
  that matches. Only ASCII digits are modelled.
\<close>

definition month_alts :: "string \<Rightarrow> (nat \<times> string) list" where
  "month_alts s =
     (case s of
        a # b # r \<Rightarrow>
          (if a = CHR ''1'' \<and> b \<in> set ''012'' then [(10 + digit_val b, r)] else [])
          @ (if a = CHR ''0'' \<and> b \<in> set ''123456789'' then [(digit_val b, r)] else [])
          @ (if a \<in> set ''123456789'' then [(digit_val a, b # r)] else [])
      | [a] \<Rightarrow> (if a \<in> set ''123456789'' then [(digit_val a, [])] else [])
      | [] \<Rightarrow> [])"

definition day_alts :: "string \<Rightarrow> (nat \<times> string) list" where
  "day_alts s =
     (case s of
        a # b # r \<Rightarrow>
          (if a = CHR ''3'' \<and> b \<in> set ''01'' then [(30 + digit_val b, r)] else [])
          @ (if a \<in> set ''12'' \<and> is_digit b then [(10 * digit_val a + digit_val b, r)] else [])
          @ (if a = CHR ''0'' \<and> b \<in> set ''123456789'' then [(digit_val b, r)] else [])
          @ (if a \<in> set ''123456789'' then [(digit_val a, b # r)] else [])
          @ (if a = CHR '' '' \<and> b \<in> set ''123456789'' then [(digit_val b, r)] else [])
      | [a] \<Rightarrow> (if a \<in> set ''123456789'' then [(digit_val a, [])] else [])
      | [] \<Rightarrow> [])"

definition is_leap :: "nat \<Rightarrow> bool" where
  "is_leap y = (y mod 4 = 0 \<and> (y mod 100 \<noteq> 0 \<or> y mod 400 = 0))"

definition days_in_month :: "nat \<Rightarrow> nat \<Rightarrow> nat" where
  "days_in_month y m =
     (if m = 2 then (if is_leap y then 29 else 28)
      else if m = 4 \<or> m = 6 \<or> m = 9 \<or> m = 11 then 30 else 31)"

text \<open>\<^verbatim>\<open>datetime.date(y, m, d)\<close> succeeds.\<close>

definition valid_date :: "nat \<Rightarrow> nat \<Rightarrow> nat \<Rightarrow> bool" where
  "valid_date y m d = (1 \<le> y \<and> y \<le> 9999 \<and> 1 \<le> m \<and> m \<le> 12 \<and> 1 \<le> d \<and> d \<le> days_in_month y m)"

text \<open>The matches of the month and day groups after the year, in backtracking order.\<close>

definition month_day_matches :: "string \<Rightarrow> (nat \<times> nat \<times> string) list" where
  "month_day_matches r =
     concat (map (\<lambda>(m, r1).
               case r1 of
                 [] \<Rightarrow> []
               | c # r2 \<Rightarrow> if c = CHR ''-'' then map (\<lambda>(d, r3). (m, d, r3)) (day_alts r2) else [])
             (month_alts r))"

text \<open>\<open>None\<close> is the \<^verbatim>\<open>ValueError\<close> of \<^verbatim>\<open>strptime\<close>.\<close>

definition strptime_ymd :: "string \<Rightarrow> (nat \<times> nat \<times> nat) option" where
  "strptime_ymd s =
     (case s of
        y1 # y2 # y3 # y4 # dash # r \<Rightarrow>
          if is_digit y1 \<and> is_digit y2 \<and> is_digit y3 \<and> is_digit y4 \<and> dash = CHR ''-'' then
            (case month_day_matches r of
               [] \<Rightarrow> None
             | (m, d, rest) # _ \<Rightarrow>
                 let y = digits_nat [y1, y2, y3, y4]
                 in if rest = [] \<and> valid_date y m d then Some (y, m, d) else None)
          else None
      | _ \<Rightarrow> None)"

section \<open>The validation engine (\<^verbatim>\<open>validators.py\<close>)\<close>

text \<open>
  \<^verbatim>\<open>validate_form_data\<close> loops over the items of the schema. \<open>check_field\<close> is the
  body of the loop: it returns the messages the iteration appends to \<^verbatim>\<open>errors\<close>, or
  the exception that leaves the function. The branches keep the order of the source.
\<close>

definition check_length :: "string \<Rightarrow> string \<Rightarrow> pyval \<Rightarrow> pyval \<Rightarrow> py_error + string list" where
  "check_length field_name value_str min_len max_len =
     (let n = Fin (of_nat (py_len value_str))
      in case num_lt n min_len of
           None \<Rightarrow> Inl TypeError
         | Some too_short \<Rightarrow>
             (case num_gt n max_len of
                None \<Rightarrow> Inl TypeError
              | Some too_long \<Rightarrow>
                  Inr ((if too_short
                        then [field_name @ '' must be at least '' @ py_str min_len @ '' characters'']
                        else [])
                       @ (if too_long
                          then [field_name @ '' must be no more than '' @ py_str max_len @ '' characters'']
                          else []))))"

definition check_email :: "string \<Rightarrow> string \<Rightarrow> string list" where
  "check_email field_name value_str =
     (if \<not> str_contains ''@'' value_str \<or> \<not> str_contains ''.'' (last (py_split CHR ''@'' value_str))
      then [field_name @ '' must be a valid email address'']
      else [])"

definition check_password :: "string \<Rightarrow> string \<Rightarrow> pyval \<Rightarrow> py_error + string list" where
  "check_password field_name value_str min_len =
     (case num_lt (Fin (of_nat (py_len value_str))) min_len of
        None \<Rightarrow> Inl TypeError
      | Some too_short \<Rightarrow>
          Inr (if too_short
               then [field_name @ '' must be at least '' @ py_str min_len @ '' characters'']
               else []))"

definition check_date :: "string \<Rightarrow> string \<Rightarrow> string list" where
  "check_date field_name value_str =
     (case strptime_ymd value_str of
        Some _ \<Rightarrow> []
      | None \<Rightarrow> [field_name @ '' must be in YYYY-MM-DD format''])"

text \<open>
  The whole number branch is inside \<^verbatim>\<open>try\<close>: a failing \<^verbatim>\<open>float()\<close> or comparison
  appends the "must be a number" message, after the messages already appended.
\<close>

definition check_number :: "string \<Rightarrow> string \<Rightarrow> pyval \<Rightarrow> pyval \<Rightarrow> string list" where
  "check_number field_name value_str min_val max_val =
     (case py_float value_str of
        None \<Rightarrow> [field_name @ '' must be a number'']
      | Some num \<Rightarrow>
          (case num_lt num min_val of
             None \<Rightarrow> [field_name @ '' must be a number'']
           | Some lt_min \<Rightarrow>
               (if lt_min then [field_name @ '' must be at least '' @ py_str min_val] else [])
               @ (case num_gt num max_val of
                    None \<Rightarrow> [field_name @ '' must be a number'']
                  | Some gt_max \<Rightarrow>
                      if gt_max then [field_name @ '' must be at most '' @ py_str max_val] else [])))"

text \<open>
  \<^verbatim>\<open>value_str not in options\<close> and \<^verbatim>\<open>map(str, options)\<close>: a list is searched for an
  equal element, a string for a substring, a dictionary for a key; any other value
  is not iterable.
\<close>

definition check_dropdown :: "string \<Rightarrow> string \<Rightarrow> pyval \<Rightarrow> py_error + string list" where
  "check_dropdown field_name value_str options =
     (case options of
        PList xs \<Rightarrow>
          Inr (if PStr value_str \<notin> set xs
               then [field_name @ '' must be one of: '' @ py_join '', '' (map py_str xs)]
               else [])
      | PStr s \<Rightarrow>
          Inr (if \<not> str_contains value_str s
               then [field_name @ '' must be one of: '' @ py_join '', '' (map (\<lambda>c. [c]) s)]
               else [])
      | PDict kvs \<Rightarrow>
          Inr (if value_str \<notin> set (map fst kvs)
               then [field_name @ '' must be one of: '' @ py_join '', '' (map fst kvs)]
               else [])
      | _ \<Rightarrow> Inl TypeError)"

definition check_field :: "(string \<times> pyval) list \<Rightarrow> string \<Rightarrow> pyval \<Rightarrow> py_error + string list" where
  "check_field data field_name field_config =
     (case field_config of
        PDict cfg \<Rightarrow>
          (let value = dict_get data field_name PNone;
               field_type = dict_get cfg ''type'' PNone;
               required = dict_get cfg ''required'' (PBool False)
           in if py_truthy required \<and> (value = PNone \<or> value = PStr [])
              then Inr [field_name @ '' is required'']
              else if \<not> py_truthy value then Inr []
              else
                (let value_str = py_strip (py_str value)
                 in if field_type = PStr ''string'' \<or> field_type = PStr ''text'' then
                      check_length field_name value_str
                        (dict_get cfg ''minLength'' (PInt 0))
                        (dict_get cfg ''maxLength'' (PFloat PosInf ''inf''))
                    else if field_type = PStr ''email'' then
                      Inr (check_email field_name value_str)
                    else if field_type = PStr ''password'' then
                      check_password field_name value_str (dict_get cfg ''minLength'' (PInt 6))
                    else if field_type = PStr ''date'' then
                      Inr (check_date field_name value_str)
                    else if field_type = PStr ''number'' then
                      Inr (check_number field_name value_str
                             (dict_get cfg ''min'' (PFloat NegInf ''-inf''))
                             (dict_get cfg ''max'' (PFloat PosInf ''inf'')))
                    else if field_type = PStr ''dropdown'' then
                      check_dropdown field_name value_str (dict_get cfg ''options'' (PList []))
                    else Inr []))
      | _ \<Rightarrow> Inl AttributeError)"

fun validate_loop ::
  "(string \<times> pyval) list \<Rightarrow> (string \<times> pyval) list \<Rightarrow> string list \<Rightarrow> py_error + string list" where
  "validate_loop data [] errors = Inr errors"
| "validate_loop data ((field_name, field_config) # rest) errors =
     (case check_field data field_name field_config of
        Inl e \<Rightarrow> Inl e
      | Inr msgs \<Rightarrow> validate_loop data rest (errors @ msgs))"

definition validate_form_data ::
  "(string \<times> pyval) list \<Rightarrow> (string \<times> pyval) list \<Rightarrow> py_error + (bool \<times> string list)" where
  "validate_form_data data schema =
     (case validate_loop data schema [] of
        Inl e \<Rightarrow> Inl e
      | Inr errors \<Rightarrow> Inr (length errors = 0, errors))"

text \<open>
  The messages one schema item contributes, for stating where in \<^verbatim>\<open>errors\<close> a
  message stands.
\<close>

definition field_messages :: "(string \<times> pyval) list \<Rightarrow> string \<times> pyval \<Rightarrow> string list" where
  "field_messages data fc =
     (case check_field data (fst fc) (snd fc) of Inl e \<Rightarrow> [] | Inr msgs \<Rightarrow> msgs)"

subsection \<open>The specification's wording of the email and date rules\<close>

text \<open>The substring after the last occurrence of \<open>c\<close> (the whole string when there is none).\<close>

definition after_last :: "char \<Rightarrow> string \<Rightarrow> string" where
  "after_last c s = rev (takeWhile (\<lambda>x. x \<noteq> c) (rev s))"

text \<open>
  The specification's date form: exactly four digits, a dash, two digits, a dash, two
  digits, naming a date of the calendar.
\<close>

definition strict_ymd :: "string \<Rightarrow> bool" where
  "strict_ymd s =
     (case s of
        [y1, y2, y3, y4, c1, m1, m2, c2, d1, d2] \<Rightarrow>
          is_digit y1 \<and> is_digit y2 \<and> is_digit y3 \<and> is_digit y4 \<and> c1 = CHR ''-''
          \<and> is_digit m1 \<and> is_digit m2 \<and> c2 = CHR ''-'' \<and> is_digit d1 \<and> is_digit d2
          \<and> valid_date (digits_nat [y1, y2, y3, y4]) (digits_nat [m1, m2]) (digits_nat [d1, d2])
      | _ \<Rightarrow> False)"

text \<open>
  The strings \<^verbatim>\<open>strptime\<close> accepts for \<^verbatim>\<open>%Y-%m-%d\<close>, said directly: four digits, a
  dash, a month of one or two digits, a dash, and a day of one or two digits or of a
  space and a digit, that name a date of the calendar.
\<close>

definition month_text :: "string \<Rightarrow> bool" where
  "month_text ms = (case ms of [a] \<Rightarrow> is_digit a | [a, b] \<Rightarrow> is_digit a \<and> is_digit b | _ \<Rightarrow> False)"

definition day_text :: "string \<Rightarrow> bool" where
  "day_text ds =
     (case ds of
        [a] \<Rightarrow> is_digit a
      | [a, b] \<Rightarrow> (is_digit a \<or> a = CHR '' '') \<and> is_digit b
      | _ \<Rightarrow> False)"

definition lenient_ymd :: "string \<Rightarrow> bool" where
  "lenient_ymd s =
     (case s of
        y1 # y2 # y3 # y4 # dash # r \<Rightarrow>
          let ms = takeWhile (\<lambda>c. c \<noteq> CHR ''-'') r;
              ds = drop 1 (dropWhile (\<lambda>c. c \<noteq> CHR ''-'') r)
          in is_digit y1 \<and> is_digit y2 \<and> is_digit y3 \<and> is_digit y4 \<and> dash = CHR ''-''
             \<and> r = ms @ ''-'' @ ds \<and> month_text ms \<and> day_text ds
             \<and> valid_date (digits_nat [y1, y2, y3, y4]) (digits_nat ms) (digits_nat ds)
      | _ \<Rightarrow> False)"

section \<open>The cache store (\<^verbatim>\<open>cache.py\<close>)\<close>

subsection \<open>The Redis server\<close>

text \<open>
  The server holds entries (key, value, time of expiry); an operation on a server
  that cannot be reached raises, and so does \<^verbatim>\<open>SETEX\<close> with a time to live of 0.
  \<^verbatim>\<open>SCAN\<close> with \<^verbatim>\<open>MATCH\<close> uses glob-style patterns:
  \<^verbatim>\<open>*\<close>, \<^verbatim>\<open>?\<close>, \<^verbatim>\<open>[...]\<close> classes and the escape \<^verbatim>\<open>\\\<close>. Each live matching
  key is returned once. The current time is a parameter of every operation.
\<close>

datatype redis_error = ConnectionError | ResponseError

record redis =
  reachable :: bool
  entries :: "(string \<times> string \<times> nat) list"

definition live :: "nat \<Rightarrow> string \<times> string \<times> nat \<Rightarrow> bool" where
  "live now e = (now < snd (snd e))"

text \<open>\<open>c\<close> lies between the two ends of a class range \<^verbatim>\<open>a-b\<close> (in either order).\<close>

definition in_range :: "char \<Rightarrow> char \<Rightarrow> char \<Rightarrow> bool" where
  "in_range a b c =
     (min (of_char a :: nat) (of_char b) \<le> of_char c \<and> (of_char c :: nat) \<le> max (of_char a) (of_char b))"

text \<open>
  The characters of a class up to its \<^verbatim>\<open>]\<close>: whether \<open>c\<close> is among them, and the
  rest of the pattern.
\<close>

function class_scan :: "char \<Rightarrow> string \<Rightarrow> bool \<Rightarrow> bool \<times> string" where
  "class_scan c [] m = (m, [])"
| "class_scan c (p # ps) m =
     (if p = CHR 0x5C \<and> ps \<noteq> [] then class_scan c (tl ps) (m \<or> hd ps = c)
      else if p = CHR '']'' then (m, ps)
      else if 2 \<le> length ps \<and> hd ps = CHR ''-'' then
        class_scan c (drop 2 ps) (m \<or> in_range p (ps ! 1) c)
      else class_scan c ps (m \<or> p = c))"
  by pat_completeness auto
termination
  by (relation "measure (\<lambda>(c, ps, m). length ps)") auto

lemma class_scan_length: "length (snd (class_scan c ps m)) \<le> length ps"
proof (induction c ps m rule: class_scan.induct)
  case (1 c m)
  show ?case by simp
next
  case (2 c p ps m)
  show ?case
  proof (cases "p = CHR 0x5C \<and> ps \<noteq> []")
    case True
    with 2(1) have "length (snd (class_scan c (tl ps) (m \<or> hd ps = c))) \<le> length (tl ps)" by simp
    with True show ?thesis by simp
  next
    case esc: False
    show ?thesis
    proof (cases "p = CHR '']''")
      case True
      with esc show ?thesis by auto
    next
      case brk: False
      show ?thesis
      proof (cases "2 \<le> length ps \<and> hd ps = CHR ''-''")
        case True
        with 2(2) esc brk
        have "length (snd (class_scan c (drop 2 ps) (m \<or> in_range p (ps ! 1) c))) \<le> length (drop 2 ps)"
          by blast
        with True esc brk show ?thesis by (auto simp del: One_nat_def)
      next
        case False
        with 2(3) esc brk
        have "length (snd (class_scan c ps (m \<or> p = c))) \<le> length ps" by blast
        with False esc brk show ?thesis by auto
      qed
    qed
  qed
qed

function glob_match :: "string \<Rightarrow> string \<Rightarrow> bool" where
  "glob_match [] s = (s = [])"
| "glob_match (p # ps) [] = (p = CHR ''*'' \<and> glob_match ps [])"
| "glob_match (p # ps) (c # t) =
     (if p = CHR ''*'' then glob_match ps (c # t) \<or> glob_match (p # ps) t
      else if p = CHR ''?'' then glob_match ps t
      else if p = CHR ''['' then
        (let neg = (ps \<noteq> [] \<and> hd ps = CHR ''^'');
             r = class_scan c (if neg then tl ps else ps) False
         in (fst r \<noteq> neg) \<and> glob_match (snd r) t)
      else if p = CHR 0x5C \<and> ps \<noteq> [] then c = hd ps \<and> glob_match (tl ps) t
      else c = p \<and> glob_match ps t)"
  by pat_completeness auto
termination
proof (relation "measure (\<lambda>(p, s). length p + length s)", goal_cases)
  case (6 p ps c t neg r)
  have "length (snd (class_scan c (if neg then tl ps else ps) False)) \<le> length ps"
    using class_scan_length [of c "if neg then tl ps else ps" False] by (cases ps) auto
  with 6 show ?case by simp
qed auto

definition redis_get :: "nat \<Rightarrow> redis \<Rightarrow> string \<Rightarrow> redis_error + string option" where
  "redis_get now rd key =
     (if reachable rd
      then Inr (map_option fst (map_of (filter (live now) (entries rd)) key))
      else Inl ConnectionError)"

definition redis_setex :: "nat \<Rightarrow> redis \<Rightarrow> string \<Rightarrow> nat \<Rightarrow> string \<Rightarrow> redis_error + redis" where
  "redis_setex now rd key ttl v =
     (if \<not> reachable rd then Inl ConnectionError
      else if ttl = 0 then Inl ResponseError
      else Inr (rd\<lparr>entries := (key, v, now + ttl) # filter (\<lambda>e. fst e \<noteq> key) (entries rd)\<rparr>))"

definition redis_delete :: "redis \<Rightarrow> string \<Rightarrow> redis_error + redis" where
  "redis_delete rd key =
     (if reachable rd
      then Inr (rd\<lparr>entries := filter (\<lambda>e. fst e \<noteq> key) (entries rd)\<rparr>)
      else Inl ConnectionError)"

definition redis_scan_iter :: "nat \<Rightarrow> redis \<Rightarrow> string \<Rightarrow> redis_error + string list" where
  "redis_scan_iter now rd pattern =
     (if reachable rd
      then Inr (remdups (map fst (filter (\<lambda>e. live now e \<and> glob_match pattern (fst e)) (entries rd))))
      else Inl ConnectionError)"

definition redis_flushdb :: "redis \<Rightarrow> redis_error + redis" where
  "redis_flushdb rd = (if reachable rd then Inr (rd\<lparr>entries := []\<rparr>) else Inl ConnectionError)"

text \<open>The keys with an entry that has not expired.\<close>

definition live_keys :: "nat \<Rightarrow> redis \<Rightarrow> string set" where
  "live_keys now rd = fst ` {e \<in> set (entries rd). live now e}"

text \<open>The characters with a special meaning in a glob pattern.\<close>

definition metachar :: "char \<Rightarrow> bool" where
  "metachar c = (c = CHR ''*'' \<or> c = CHR ''?'' \<or> c = CHR ''['' \<or> c = CHR 0x5C)"

subsection \<open>The JSON library\<close>

text \<open>
  Python's \<^verbatim>\<open>json\<close> module and the framework's JSON rendering are not code of the
  repository: they are parameters of the model. \<open>None\<close> is a raised exception; the
  framework renders with \<^verbatim>\<open>allow_nan=False\<close>, so \<open>render\<close> raises on a document
  that holds NaN or an infinity, which \<open>loads\<close> accepts.
\<close>

record json_lib =
  loads :: "string \<Rightarrow> pyval option"
  dumps :: "pyval \<Rightarrow> string option"
  render :: "pyval \<Rightarrow> string option"

subsection \<open>The cache functions\<close>

text \<open>
  The module-level connection \<^verbatim>\<open>r\<close> is \<open>None\<close> when the server did not answer at
  start-up. Functions that change the server return the new \<^verbatim>\<open>r\<close>.
\<close>

definition cache_get :: "json_lib \<Rightarrow> nat \<Rightarrow> redis option \<Rightarrow> string \<Rightarrow> pyval" where
  "cache_get js now r key =
     (case r of
        None \<Rightarrow> PNone
      | Some rd \<Rightarrow>
          (case redis_get now rd key of
             Inl e \<Rightarrow> PNone
           | Inr data \<Rightarrow>
               (case data of
                  None \<Rightarrow> PNone
                | Some d \<Rightarrow>
                    if d = [] then PNone
                    else (case loads js d of None \<Rightarrow> PNone | Some v \<Rightarrow> v))))"

definition cache_set :: "json_lib \<Rightarrow> nat \<Rightarrow> redis option \<Rightarrow> string \<Rightarrow> pyval \<Rightarrow> nat \<Rightarrow> redis option" where
  "cache_set js now r key v ttl =
     (case r of
        None \<Rightarrow> None
      | Some rd \<Rightarrow>
          (case dumps js v of
             None \<Rightarrow> Some rd
           | Some text \<Rightarrow>
               (case redis_setex now rd key ttl text of
                  Inl e \<Rightarrow> Some rd
                | Inr rd' \<Rightarrow> Some rd')))"

definition cache_delete :: "redis option \<Rightarrow> string \<Rightarrow> redis option" where
  "cache_delete r key =
     (case r of
        None \<Rightarrow> None
      | Some rd \<Rightarrow> (case redis_delete rd key of Inl e \<Rightarrow> Some rd | Inr rd' \<Rightarrow> Some rd'))"

text \<open>The loop of \<^verbatim>\<open>cache_delete_pattern\<close> over the scanned keys.\<close>

fun delete_keys :: "redis \<Rightarrow> string list \<Rightarrow> nat \<Rightarrow> redis_error + (nat \<times> redis)" where
  "delete_keys rd [] count = Inr (count, rd)"
| "delete_keys rd (key # keys) count =
     (case redis_delete rd key of
        Inl e \<Rightarrow> Inl e
      | Inr rd' \<Rightarrow> delete_keys rd' keys (count + 1))"

definition cache_delete_pattern :: "nat \<Rightarrow> redis option \<Rightarrow> string \<Rightarrow> nat \<times> redis option" where
  "cache_delete_pattern now r pattern =
     (case r of
        None \<Rightarrow> (0, None)
      | Some rd \<Rightarrow>
          (case redis_scan_iter now rd pattern of
             Inl e \<Rightarrow> (0, Some rd)
           | Inr keys \<Rightarrow>
               (case delete_keys rd keys 0 of
                  Inl e \<Rightarrow> (0, Some rd)
                | Inr (count, rd') \<Rightarrow> (count, Some rd'))))"

definition cache_clear :: "redis option \<Rightarrow> redis option" where
  "cache_clear r =
     (case r of
        None \<Rightarrow> None
      | Some rd \<Rightarrow> (case redis_flushdb rd of Inl e \<Rightarrow> Some rd | Inr rd' \<Rightarrow> Some rd'))"

section \<open>The gateway middleware (\<^verbatim>\<open>gateway.py\<close>)\<close>

text \<open>
  A response is its status code and the chunks its body iterator has still to yield;
  the client receives their concatenation. Headers are not modelled. The downstream
  handler \<^verbatim>\<open>call_next\<close> answers a request and changes the world behind it (the
  database). The log holds, in order, the lines the middleware prints and the
  invocations of the handler. The middleware returns a response or raises; either
  way the model also gives the state it leaves.
\<close>

record request =
  req_method :: string
  req_path :: string
  req_query :: string

record response =
  status_code :: nat
  body_iterator :: "string list"

datatype event =
    Cache_hit string
  | Cache_miss string
  | Handler_called
  | Cached string
  | Cache_error
  | Invalidated nat string string

record 'w gateway =
  store :: "redis option"
  world :: 'w
  log :: "event list"

type_synonym 'w handler = "request \<Rightarrow> 'w \<Rightarrow> response \<times> 'w"

definition sent_body :: "response \<Rightarrow> string" where
  "sent_body resp = concat (body_iterator resp)"

text \<open>\<^verbatim>\<open>JSONResponse(content=...)\<close> renders its content when it is built.\<close>

definition JSONResponse :: "json_lib \<Rightarrow> pyval \<Rightarrow> py_error + response" where
  "JSONResponse js content =
     (case render js content of
        None \<Rightarrow> Inl ValueError
      | Some body \<Rightarrow> Inr \<lparr>status_code = 200, body_iterator = [body]\<rparr>)"

definition call_next :: "'w handler \<Rightarrow> request \<Rightarrow> 'w gateway \<Rightarrow> response \<times> 'w gateway" where
  "call_next h req g =
     (case h req (world g) of
        (resp, w') \<Rightarrow> (resp, g\<lparr>world := w', log := log g @ [Handler_called]\<rparr>))"

definition cache_key_of :: "request \<Rightarrow> string" where
  "cache_key_of req =
     req_method req @ '':'' @ req_path req
     @ (if req_query req \<noteq> [] then ''?'' @ req_query req else [])"

text \<open>
  "Cache successful GET responses". Joining the chunks exhausts
  \<^verbatim>\<open>response.body_iterator\<close>: when the body decodes, the joined body is sent again
  through a new streaming response; when decoding raises, the \<^verbatim>\<open>except\<close> branch
  returns the response object itself, whose iterator has nothing left to yield.
\<close>

definition cache_response ::
  "json_lib \<Rightarrow> nat \<Rightarrow> request \<Rightarrow> response \<Rightarrow> 'w gateway \<Rightarrow> response \<times> 'w gateway" where
  "cache_response js now req resp g =
     (let body = concat (body_iterator resp);
          resp' = resp\<lparr>body_iterator := []\<rparr>
      in case loads js body of
           None \<Rightarrow> (resp', g\<lparr>log := log g @ [Cache_error]\<rparr>)
         | Some data \<Rightarrow>
             (\<lparr>status_code = status_code resp', body_iterator = [body]\<rparr>,
              g\<lparr>store := cache_set js now (store g) (cache_key_of req) data 3600,
                log := log g @ [Cached (req_path req)]\<rparr>))"

text \<open>"Invalidate cache after data changes".\<close>

definition invalidate :: "nat \<Rightarrow> request \<Rightarrow> 'w gateway \<Rightarrow> 'w gateway" where
  "invalidate now req g =
     (let path = req_path req
      in if str_contains ''/forms'' path \<or> str_contains ''/create_form'' path then
           (case cache_delete_pattern now (store g) ''GET:/api/forms*'' of
              (deleted, r') \<Rightarrow>
                g\<lparr>store := r', log := log g @ [Invalidated deleted ''/api/forms/*'' (req_method req)]\<rparr>)
         else if str_contains ''/submissions'' path then
           (case cache_delete_pattern now (store g) ''GET:/api/submissions*'' of
              (deleted, r') \<Rightarrow>
                g\<lparr>store := r', log := log g @ [Invalidated deleted ''/api/submissions/*'' (req_method req)]\<rparr>)
         else g)"

definition cache_middleware ::
  "json_lib \<Rightarrow> nat \<Rightarrow> 'w handler \<Rightarrow> request \<Rightarrow> 'w gateway
     \<Rightarrow> (py_error + response) \<times> 'w gateway" where
  "cache_middleware js now h req g =
     (let path = req_path req;
          method = req_method req;
          is_api = prefix ''/api/'' path;
          cached_data = (if method = ''GET'' \<and> is_api
                         then cache_get js now (store g) (cache_key_of req) else PNone)
      in if method = ''GET'' \<and> is_api \<and> py_truthy cached_data then
           (JSONResponse js cached_data, g\<lparr>log := log g @ [Cache_hit path]\<rparr>)
         else
           (case call_next h req
                   (if method = ''GET'' \<and> is_api then g\<lparr>log := log g @ [Cache_miss path]\<rparr> else g) of
              (resp, g') \<Rightarrow>
                if method = ''GET'' \<and> is_api \<and> status_code resp = 200 then
                  (case cache_response js now req resp g' of (resp', g'') \<Rightarrow> (Inr resp', g''))
                else if method \<in> {''POST'', ''PUT'', ''DELETE''} \<and> is_api then
                  (Inr resp, invalidate now req g')
                else (Inr resp, g')))"

text \<open>
  The store \<open>r'\<close> is the server \<open>rd\<close> after a sweep of the key prefix \<open>p\<close>: no key
  with the prefix is found, every other key reads as before.
\<close>

definition swept :: "nat \<Rightarrow> redis \<Rightarrow> redis option \<Rightarrow> string \<Rightarrow> bool" where
  "swept now rd r' p =
     (\<exists>rd'. r' = Some rd'
        \<and> (\<forall>k. redis_get now rd' k = (if prefix p k then Inr None else redis_get now rd k)))"

subsection \<open>Sample data\<close>

text \<open>
  A JSON library given on the few documents the examples below exchange; on these it
  agrees with Python's \<^verbatim>\<open>json.loads\<close>, \<^verbatim>\<open>json.dumps\<close> and the framework's compact
  rendering (\<^verbatim>\<open>Infinity\<close> is read and written by the first two and refused by the
  third). The general theorems hold for every library.
\<close>

definition sample_json :: json_lib where
  "sample_json =
     \<lparr>loads = map_of [(''{}'', PDict []), (''[]'', PList []),
                       (''[1, 2]'', PList [PInt 1, PInt 2]), (''[1,2]'', PList [PInt 1, PInt 2]),
                       (''[Infinity]'', PList [PFloat PosInf ''inf''])],
      dumps = (\<lambda>v. if v = PDict [] then Some ''{}''
                     else if v = PList [] then Some ''[]''
                     else if v = PList [PInt 1, PInt 2] then Some ''[1, 2]''
                     else if v = PList [PFloat PosInf ''inf''] then Some ''[Infinity]''
                     else None),
      render = (\<lambda>v. if v = PDict [] then Some ''{}''
                      else if v = PList [] then Some ''[]''
                      else if v = PList [PInt 1, PInt 2] then Some ''[1,2]''
                      else None)\<rparr>"

text \<open>A handler that answers every request with the given status and body and counts its calls.\<close>

definition counting_handler :: "nat \<Rightarrow> string \<Rightarrow> nat handler" where
  "counting_handler status body req n = (\<lparr>status_code = status, body_iterator = [body]\<rparr>, n + 1)"

definition GET :: "string \<Rightarrow> request" where
  "GET path = \<lparr>req_method = ''GET'', req_path = path, req_query = []\<rparr>"

definition POST :: "string \<Rightarrow> request" where
  "POST path = \<lparr>req_method = ''POST'', req_path = path, req_query = []\<rparr>"

definition start :: "redis option \<Rightarrow> nat gateway" where
  "start r = \<lparr>store = r, world = 0, log = []\<rparr>"

section \<open>Properties of the validation engine\<close>

lemma validate_loop_append:
  "validate_loop data (xs @ ys) acc =
     (case validate_loop data xs acc of Inl e \<Rightarrow> Inl e | Inr a \<Rightarrow> validate_loop data ys a)"
  by (induction xs arbitrary: acc) (auto split: sum.splits)

lemma validate_loop_Inr:
  "validate_loop data schema acc = Inr errors \<Longrightarrow>
     errors = acc @ concat (map (field_messages data) schema)"
proof (induction schema arbitrary: acc)
  case Nil
  then show ?case by simp
next
  case (Cons fc schema)
  obtain f c where fc: "fc = (f, c)" by (cases fc)
  from Cons.prems obtain msgs where m: "check_field data f c = Inr msgs"
    and r: "validate_loop data schema (acc @ msgs) = Inr errors"
    by (auto simp: fc split: sum.splits)
  from Cons.IH [OF r] show ?case
    by (simp add: fc field_messages_def m)
qed

lemma str_contains_single: "str_contains [c] s \<longleftrightarrow> c \<in> set s"
  by (induction s) auto

lemma py_split_nonempty: "py_split c s \<noteq> []"
  by (induction s) (auto split: list.splits)

lemma py_split_notin: "c \<notin> set s \<Longrightarrow> py_split c s = [s]"
  by (induction s) auto

lemma py_split_in: "c \<in> set s \<Longrightarrow> \<exists>w ws. py_split c s = w # ws \<and> ws \<noteq> []"
proof (induction s)
  case Nil
  then show ?case by simp
next
  case (Cons x s)
  show ?case
  proof (cases "x = c")
    case True
    then show ?thesis using py_split_nonempty [of c s] by simp
  next
    case False
    with Cons.prems have "c \<in> set s" by simp
    from Cons.IH [OF this] False show ?thesis by auto
  qed
qed

lemma after_last_Cons:
  "after_last c (x # s) = (if c \<in> set s then after_last c s else if x = c then s else x # s)"
  by (auto simp: after_last_def takeWhile_append)

lemma last_py_split: "last (py_split c s) = after_last c s"
proof (induction s)
  case Nil
  show ?case by (simp add: after_last_def)
next
  case (Cons x s)
  show ?case
  proof (cases "c \<in> set s")
    case True
    from py_split_in [OF True] obtain w ws where ws: "py_split c s = w # ws" "ws \<noteq> []"
      by blast
    then show ?thesis
      using Cons True by (simp add: after_last_Cons)
  next
    case False
    then show ?thesis
      by (simp add: after_last_Cons py_split_notin)
  qed
qed

lemma check_email_iff:
  "check_email f s = [] \<longleftrightarrow> CHR ''@'' \<in> set s \<and> CHR ''.'' \<in> set (after_last CHR ''@'' s)"
  by (simp add: check_email_def str_contains_single last_py_split)

lemma truthy_not_empty: "py_truthy v \<Longrightarrow> v \<noteq> PNone \<and> v \<noteq> PStr []"
  by (cases v) auto

lemma check_field_email:
  assumes "map_of cfg ''type'' = Some (PStr ''email'')"
    and "map_of data f = Some v" and "py_truthy v"
  shows "check_field data f (PDict cfg) = Inr (check_email f (py_strip (py_str v)))"
  using assms truthy_not_empty [OF assms(3)]
  by (simp add: check_field_def dict_get_def)

lemma check_field_prefix:
  assumes "check_field data f c = Inr msgs" and "e \<in> set msgs"
  shows "prefix (f @ '' '') e"
  using assms
  by (auto simp: check_field_def Let_def check_length_def check_email_def check_password_def
        check_date_def check_number_def check_dropdown_def
      split: pyval.splits if_splits option.splits)

lemma check_field_cong:
  assumes "map_of data f = map_of data' f"
  shows "check_field data f c = check_field data' f c"
proof -
  have "dict_get data f PNone = dict_get data' f PNone"
    using assms by (simp add: dict_get_def)
  then show ?thesis
    by (cases c) (simp_all add: check_field_def)
qed

lemma validate_loop_cong:
  assumes "\<forall>f \<in> fst ` set schema. map_of data f = map_of data' f"
  shows "validate_loop data schema acc = validate_loop data' schema acc"
  using assms
proof (induction schema arbitrary: acc)
  case Nil
  show ?case by simp
next
  case (Cons fc schema)
  obtain f c where fc: "fc = (f, c)" by (cases fc)
  from Cons.prems have "map_of data f = map_of data' f" by (simp add: fc)
  then have "check_field data f c = check_field data' f c" by (rule check_field_cong)
  moreover from Cons.prems have "\<forall>f \<in> fst ` set schema. map_of data f = map_of data' f" by simp
  ultimately show ?case using Cons.IH by (simp add: fc split: sum.splits)
qed


lemma check_field_required:
  assumes "py_truthy (dict_get cfg ''required'' (PBool False))"
    and "map_of data f = None \<or> map_of data f = Some PNone \<or> map_of data f = Some (PStr [])"
  shows "check_field data f (PDict cfg) = Inr [f @ '' is required'']"
  using assms by (auto simp: check_field_def dict_get_def)

lemma validate_form_data_Inr:
  assumes "validate_form_data data schema = Inr (valid, errors)"
  shows "errors = concat (map (field_messages data) schema)" and "valid = (errors = [])"
  using assms validate_loop_Inr [of data schema "[]"]
  by (auto simp: validate_form_data_def split: sum.splits)

lemma validate_loop_split:
  assumes "validate_loop data (pre @ (f, c) # post) [] = Inr errors"
  shows "\<exists>msgs. check_field data f c = Inr msgs
           \<and> errors = concat (map (field_messages data) pre) @ msgs
                      @ concat (map (field_messages data) post)"
proof -
  from assms obtain a where a: "validate_loop data pre [] = Inr a"
    and r: "validate_loop data ((f, c) # post) a = Inr errors"
    by (auto simp: validate_loop_append split: sum.splits)
  from r obtain msgs where m: "check_field data f c = Inr msgs"
    and p: "validate_loop data post (a @ msgs) = Inr errors"
    by (auto split: sum.splits)
  from validate_loop_Inr [OF a] validate_loop_Inr [OF p] m show ?thesis by simp
qed

text \<open>
  C5. A required field whose payload value is absent, null or the empty string gets
  exactly the message "<field> is required" and no other check: the iteration for the
  field yields that one message, the result is invalid, and the message stands between
  the messages of the fields before and after it. The specification's example
  \<^verbatim>\<open>validate({}, {"name": {type: string, required: true}})\<close> is the witness.
\<close>

theorem required_field_missing:
  assumes "py_truthy (dict_get cfg ''required'' (PBool False))"
    and "map_of data f = None \<or> map_of data f = Some PNone \<or> map_of data f = Some (PStr [])"
    and "validate_form_data data (pre @ (f, PDict cfg) # post) = Inr (valid, errors)"
  shows "check_field data f (PDict cfg) = Inr [f @ '' is required'']
         \<and> valid = False
         \<and> errors = concat (map (field_messages data) pre) @ [f @ '' is required'']
                      @ concat (map (field_messages data) post)"
proof -
  have c: "check_field data f (PDict cfg) = Inr [f @ '' is required'']"
    using assms(1,2) by (rule check_field_required)
  from assms(3) have "validate_loop data (pre @ (f, PDict cfg) # post) [] = Inr errors"
    and v: "valid = (length errors = 0)"
    by (auto simp: validate_form_data_def split: sum.splits)
  from validate_loop_split [OF this(1)] c
  have e: "errors = concat (map (field_messages data) pre) @ [f @ '' is required'']
                      @ concat (map (field_messages data) post)"
    by auto
  with v have "valid = False" by simp
  with c e show ?thesis by simp
qed

theorem required_field_missing_witness:
  "py_truthy (dict_get [(''type'', PStr ''string''), (''required'', PBool True)] ''required'' (PBool False))
   \<and> map_of ([] :: (string \<times> pyval) list) ''name'' = None
   \<and> validate_form_data []
         [(''name'', PDict [(''type'', PStr ''string''), (''required'', PBool True)])]
       = Inr (False, [''name is required''])
   \<and> check_field [] ''name'' (PDict [(''type'', PStr ''string''), (''required'', PBool True)])
       = Inr [''name is required'']"
proof -
  have h1: "py_truthy (dict_get [(''type'', PStr ''string''), (''required'', PBool True)] ''required'' (PBool False))"
    by (simp add: dict_get_def)
  have h2: "map_of ([] :: (string \<times> pyval) list) ''name'' = None
            \<or> map_of ([] :: (string \<times> pyval) list) ''name'' = Some PNone
            \<or> map_of ([] :: (string \<times> pyval) list) ''name'' = Some (PStr [])"
    by simp
  have h3: "validate_form_data [] ([] @ (''name'', PDict [(''type'', PStr ''string''), (''required'', PBool True)]) # [])
              = Inr (False, [''name is required''])"
    by code_simp
  from required_field_missing [OF h1 h2 h3] h1 h3 show ?thesis by simp
qed

text \<open>
  C6. The claim fails on the code: a value that is present and neither null nor the
  empty string, but false in Python's truth test (the number 0 here), is skipped by
  \<^verbatim>\<open>if not value: continue\<close> before any type check, although the required test just
  above treats only \<^verbatim>\<open>None\<close> and \<^verbatim>\<open>""\<close> as missing. The number 0 passes a number
  field with \<^verbatim>\<open>min = 18\<close>, required or not; the string "0" is checked and rejected.
\<close>

theorem zero_skips_number_check:
  "validate_form_data [(''age'', PInt 0)]
     [(''age'', PDict [(''type'', PStr ''number''), (''min'', PInt 18)])] = Inr (True, [])
   \<and> validate_form_data [(''age'', PInt 0)]
     [(''age'', PDict [(''type'', PStr ''number''), (''required'', PBool True), (''min'', PInt 18)])]
       = Inr (True, [])
   \<and> validate_form_data [(''age'', PStr ''0'')]
     [(''age'', PDict [(''type'', PStr ''number''), (''min'', PInt 18)])]
       = Inr (False, [''age must be at least 18''])"
  by code_simp

text \<open>
  C8. The claim fails on the code, by the defect of C6: an email field whose payload
  value is the number 0 or \<^verbatim>\<open>false\<close> is present and not empty, its string form
  ("0", "False") contains no \<^verbatim>\<open>@\<close>, and yet no message is emitted, because
  \<^verbatim>\<open>if not value: continue\<close> skips the field before the email check. The string "0"
  is checked and rejected.
\<close>

theorem zero_skips_email_check:
  "validate_form_data [(''mail'', PInt 0)] [(''mail'', PDict [(''type'', PStr ''email'')])]
     = Inr (True, [])
   \<and> CHR ''@'' \<notin> set (py_strip (py_str (PInt 0)))
   \<and> validate_form_data [(''mail'', PBool False)]
       [(''mail'', PDict [(''type'', PStr ''email''), (''required'', PBool True)])]
     = Inr (True, [])
   \<and> CHR ''@'' \<notin> set (py_strip (py_str (PBool False)))
   \<and> validate_form_data [(''mail'', PStr ''0'')] [(''mail'', PDict [(''type'', PStr ''email'')])]
     = Inr (False, [''mail must be a valid email address''])"
  by code_simp

text \<open>
  The email rule itself. For an email field whose payload value passes the emptiness
  test, no message is emitted if and only if the trimmed string contains \<^verbatim>\<open>@\<close> and
  the part after its last \<^verbatim>\<open>@\<close> contains a dot; otherwise exactly the email message is
  emitted.
\<close>

theorem email_field_rule:
  assumes "map_of cfg ''type'' = Some (PStr ''email'')"
    and "map_of data f = Some v" and "py_truthy v"
  shows "check_field data f (PDict cfg) =
           Inr (if CHR ''@'' \<in> set (py_strip (py_str v))
                   \<and> CHR ''.'' \<in> set (after_last CHR ''@'' (py_strip (py_str v)))
                then [] else [f @ '' must be a valid email address''])"
proof -
  have "check_field data f (PDict cfg) = Inr (check_email f (py_strip (py_str v)))"
    using assms by (rule check_field_email)
  moreover have "check_email f (py_strip (py_str v)) =
      (if CHR ''@'' \<in> set (py_strip (py_str v))
          \<and> CHR ''.'' \<in> set (after_last CHR ''@'' (py_strip (py_str v)))
       then [] else [f @ '' must be a valid email address''])"
    using check_email_iff [of f "py_strip (py_str v)"]
    by (auto simp: check_email_def)
  ultimately show ?thesis by simp
qed

theorem email_field_rule_witness:
  "check_field [(''mail'', PStr ''a@b@c.d'')] ''mail'' (PDict [(''type'', PStr ''email'')]) = Inr []
   \<and> check_field [(''mail'', PStr ''a.b@c'')] ''mail'' (PDict [(''type'', PStr ''email'')])
       = Inr [''mail must be a valid email address'']
   \<and> validate_form_data [(''mail'', PStr ''a@b@c.d'')] [(''mail'', PDict [(''type'', PStr ''email'')])]
       = Inr (True, [])
   \<and> validate_form_data [(''mail'', PStr ''a.b@c'')] [(''mail'', PDict [(''type'', PStr ''email'')])]
       = Inr (False, [''mail must be a valid email address''])"
proof -
  have t: "map_of [(''type'', PStr ''email'')] ''type'' = Some (PStr ''email'')" by simp
  have a: "map_of [(''mail'', PStr ''a@b@c.d'')] ''mail'' = Some (PStr ''a@b@c.d'')" by simp
  have b: "map_of [(''mail'', PStr ''a.b@c'')] ''mail'' = Some (PStr ''a.b@c'')" by simp
  have ta: "py_truthy (PStr ''a@b@c.d'')" and tb: "py_truthy (PStr ''a.b@c'')" by simp_all
  have ea: "(CHR ''@'' \<in> set (py_strip (py_str (PStr ''a@b@c.d'')))
            \<and> CHR ''.'' \<in> set (after_last CHR ''@'' (py_strip (py_str (PStr ''a@b@c.d'')))))  = True"
    by code_simp
  have eb: "(CHR ''@'' \<in> set (py_strip (py_str (PStr ''a.b@c'')))
            \<and> CHR ''.'' \<in> set (after_last CHR ''@'' (py_strip (py_str (PStr ''a.b@c''))))) = False"
    by code_simp
  have va: "validate_form_data [(''mail'', PStr ''a@b@c.d'')] [(''mail'', PDict [(''type'', PStr ''email'')])]
       = Inr (True, [])" by code_simp
  have vb: "validate_form_data [(''mail'', PStr ''a.b@c'')] [(''mail'', PDict [(''type'', PStr ''email'')])]
       = Inr (False, [''mail must be a valid email address''])" by code_simp
  from email_field_rule [OF t a ta] email_field_rule [OF t b tb] va vb
  show ?thesis unfolding ea eb by simp
qed

lemma validate_form_data_cong:
  assumes "\<forall>f \<in> fst ` set schema. map_of data f = map_of data' f"
  shows "validate_form_data data schema = validate_form_data data' schema"
  using validate_loop_cong [OF assms] by (simp add: validate_form_data_def)

lemma field_messages_prefix:
  assumes "e \<in> set (field_messages data fc)"
  shows "prefix (fst fc @ '' '') e"
proof (cases "check_field data (fst fc) (snd fc)")
  case (Inl err)
  with assms show ?thesis by (simp add: field_messages_def)
next
  case (Inr msgs)
  with assms have "e \<in> set msgs" by (simp add: field_messages_def)
  with Inr show ?thesis by (rule check_field_prefix)
qed

lemma validate_errors_name_fields:
  assumes "validate_form_data data schema = Inr (valid, errors)" and "e \<in> set errors"
  shows "\<exists>f \<in> fst ` set schema. prefix (f @ '' '') e"
proof -
  from validate_form_data_Inr(1) [OF assms(1)] assms(2)
  obtain fc where "fc \<in> set schema" and "e \<in> set (field_messages data fc)" by auto
  then show ?thesis using field_messages_prefix by blast
qed

text \<open>
  C10. Only the fields named in the schema are inspected: two payloads that agree on
  the schema's fields get the same result, whatever other keys they hold; every
  message starts with the name of a schema field; and the empty schema accepts every
  payload with no message.
\<close>

theorem only_schema_fields:
  "((\<forall>f \<in> fst ` set schema. map_of data f = map_of data' f)
      \<longrightarrow> validate_form_data data schema = validate_form_data data' schema)
   \<and> (validate_form_data data schema = Inr (valid, errors)
      \<longrightarrow> (\<forall>e \<in> set errors. \<exists>f \<in> fst ` set schema. prefix (f @ '' '') e))
   \<and> validate_form_data data [] = Inr (True, [])"
  using validate_form_data_cong [of schema data data']
    validate_errors_name_fields [of data schema valid errors]
  by (auto simp: validate_form_data_def)

theorem only_schema_fields_witness:
  "validate_form_data [(''name'', PStr ''''), (''extra'', PInt 5)]
       [(''name'', PDict [(''type'', PStr ''string''), (''required'', PBool True)])]
     = Inr (False, [''name is required''])
   \<and> validate_form_data [(''name'', PStr '''')]
       [(''name'', PDict [(''type'', PStr ''string''), (''required'', PBool True)])]
     = Inr (False, [''name is required''])
   \<and> prefix (''name'' @ '' '') ''name is required''
   \<and> validate_form_data [(''extra'', PInt 5)] [] = Inr (True, [])"
proof -
  let ?schema = "[(''name'', PDict [(''type'', PStr ''string''), (''required'', PBool True)])]"
  let ?d = "[(''name'', PStr ''''), (''extra'', PInt 5)]"
  let ?d' = "[(''name'', PStr '''')]"
  have h1: "\<forall>f \<in> fst ` set ?schema. map_of ?d f = map_of ?d' f" by simp
  have h2: "validate_form_data ?d ?schema = Inr (False, [''name is required''])" by code_simp
  have p: "prefix (''name'' @ '' '') ''name is required''" by simp
  have e: "validate_form_data [(''extra'', PInt 5)] [] = Inr (True, [])" by code_simp
  from only_schema_fields [of ?schema ?d ?d' False "[''name is required'']"] h1 h2 p e
  show ?thesis by simp
qed

subsection \<open>Dates\<close>

lemma digit_cases:
  "is_digit c \<longleftrightarrow> c = CHR ''0'' \<or> c = CHR ''1'' \<or> c = CHR ''2'' \<or> c = CHR ''3'' \<or> c = CHR ''4''
     \<or> c = CHR ''5'' \<or> c = CHR ''6'' \<or> c = CHR ''7'' \<or> c = CHR ''8'' \<or> c = CHR ''9''"
  by (auto simp: is_digit_def)

lemma digits_nat_2: "is_digit a \<Longrightarrow> is_digit b \<Longrightarrow> digits_nat [a, b] = 10 * digit_val a + digit_val b"
  by (simp add: digits_nat_def)

lemma month_two_digits:
  assumes "is_digit a" "is_digit b" "1 \<le> digits_nat [a, b]" "digits_nat [a, b] \<le> 12"
  shows "month_day_matches (a # b # CHR ''-'' # r)
           = map (\<lambda>(d, r3). (digits_nat [a, b], d, r3)) (day_alts r)"
  using assms(3,4) unfolding digits_nat_2 [OF assms(1,2)]
  using assms(1,2) unfolding digit_cases
  by (elim disjE) (simp_all add: month_day_matches_def month_alts_def digit_val_def)

lemma day_two_digits:
  assumes "is_digit a" "is_digit b" "1 \<le> digits_nat [a, b]" "digits_nat [a, b] \<le> 31"
  shows "\<exists>rest. day_alts [a, b] = (digits_nat [a, b], []) # rest"
  using assms(3,4) unfolding digits_nat_2 [OF assms(1,2)]
  using assms(1,2) unfolding digit_cases
  by (elim disjE) (simp_all add: day_alts_def digit_val_def is_digit_def)

lemma strict_ymd_accepted:
  assumes "strict_ymd s"
  shows "strptime_ymd s \<noteq> None"
proof -
  from assms obtain y1 y2 y3 y4 m1 m2 d1 d2 where
    s: "s = [y1, y2, y3, y4, CHR ''-'', m1, m2, CHR ''-'', d1, d2]"
    and y: "is_digit y1" "is_digit y2" "is_digit y3" "is_digit y4"
    and m: "is_digit m1" "is_digit m2" and d: "is_digit d1" "is_digit d2"
    and v: "valid_date (digits_nat [y1, y2, y3, y4]) (digits_nat [m1, m2]) (digits_nat [d1, d2])"
    by (auto simp: strict_ymd_def split: list.splits)
  from v have mr: "1 \<le> digits_nat [m1, m2]" "digits_nat [m1, m2] \<le> 12"
    and dr: "1 \<le> digits_nat [d1, d2]" "digits_nat [d1, d2] \<le> 31"
    by (auto simp: valid_date_def days_in_month_def split: if_splits)
  from day_two_digits [OF d dr] obtain rest where
    da: "day_alts [d1, d2] = (digits_nat [d1, d2], []) # rest" by blast
  have "month_day_matches [m1, m2, CHR ''-'', d1, d2]
          = (digits_nat [m1, m2], digits_nat [d1, d2], [])
            # map (\<lambda>(d, r3). (digits_nat [m1, m2], d, r3)) rest"
    by (simp add: month_two_digits [OF m mr] da)
  with y v show ?thesis
    by (simp add: strptime_ymd_def s)
qed

lemma check_field_date:
  assumes "map_of cfg ''type'' = Some (PStr ''date'')"
    and "map_of data f = Some v" and "py_truthy v"
  shows "check_field data f (PDict cfg) = Inr (check_date f (py_strip (py_str v)))"
  using assms truthy_not_empty [OF assms(3)]
  by (simp add: check_field_def dict_get_def)

text \<open>The first match of the day group, when it leaves nothing.\<close>

lemma digit_val_digit: "is_digit c \<Longrightarrow> digits_nat [c] = digit_val c"
  by (simp add: digits_nat_def)

lemma day_alts_single:
  "day_alts [a] = (if a \<in> set ''123456789'' then [(digit_val a, [])] else [])"
  by (simp add: day_alts_def)

lemma day_first_match:
  "(case day_alts ds of [] \<Rightarrow> False | (d, rest) # _ \<Rightarrow> rest = [] \<and> P d)
     \<longleftrightarrow> day_text ds \<and> 1 \<le> digits_nat ds \<and> digits_nat ds \<le> 31 \<and> P (digits_nat ds)"
proof (cases ds)
  case Nil
  then show ?thesis by (simp add: day_alts_def day_text_def)
next
  case (Cons a r)
  note ds = this
  show ?thesis
  proof (cases r)
    case Nil
    with ds show ?thesis
      by (auto simp: day_alts_def day_text_def digit_cases digits_nat_def digit_val_def)
  next
    case (Cons b r2)
    note r = this
    show ?thesis
    proof (cases r2)
      case Nil
      show ?thesis
      proof (cases "is_digit a \<and> is_digit b")
        case True
        then show ?thesis
          unfolding ds r Nil digit_cases
          by (elim conjE disjE)
             (simp_all add: day_alts_def day_text_def digits_nat_def digit_val_def is_digit_def)
      next
        case False
        then show ?thesis
          unfolding ds r Nil
          by (auto simp: day_alts_def day_text_def digits_nat_def digit_val_def is_digit_def)
      qed
    next
      case (Cons c r3)
      then show ?thesis
        unfolding ds r
        by (auto simp: day_alts_def day_text_def)
    qed
  qed
qed

lemma case_map_day:
  "(case map (\<lambda>(d, r3). (m, d, r3)) xs of [] \<Rightarrow> False | (m', d, rest) # _ \<Rightarrow> rest = [] \<and> P m' d)
     \<longleftrightarrow> (case xs of [] \<Rightarrow> False | (d, rest) # _ \<Rightarrow> rest = [] \<and> P m d)"
  by (cases xs) auto

lemma month_one:
  "month_day_matches (a # CHR ''-'' # r2)
     = (if a \<in> set ''123456789'' then map (\<lambda>(d, r3). (digit_val a, d, r3)) (day_alts r2) else [])"
  by (simp add: month_day_matches_def month_alts_def)

lemma month_two:
  assumes "b \<noteq> CHR ''-''"
  shows "month_day_matches (a # b # CHR ''-'' # r2)
     = (if (a = CHR ''1'' \<and> b \<in> set ''012'') \<or> (a = CHR ''0'' \<and> b \<in> set ''123456789'')
        then map (\<lambda>(d, r3). (10 * digit_val a + digit_val b, d, r3)) (day_alts r2) else [])"
  using assms by (auto simp: month_day_matches_def month_alts_def digit_val_def)

lemma month_none:
  assumes "b \<noteq> CHR ''-''"
  shows "month_day_matches [a, b] = []"
    and "c \<noteq> CHR ''-'' \<Longrightarrow> month_day_matches (a # b # c # r2) = []"
  using assms by (auto simp: month_day_matches_def month_alts_def)

lemma month_short: "month_day_matches [a] = []" "month_day_matches [] = []"
  by (auto simp: month_day_matches_def month_alts_def)

lemma valid_date_ranges: "valid_date y m d \<Longrightarrow> 1 \<le> m \<and> m \<le> 12 \<and> 1 \<le> d \<and> d \<le> 31"
  by (auto simp: valid_date_def days_in_month_def split: if_splits)

lemma one_digit_month: "is_digit a \<Longrightarrow> (1 \<le> digit_val a \<longleftrightarrow> a \<in> set ''123456789'')"
  unfolding digit_cases by (elim disjE) (simp_all add: digit_val_def)

lemma one_digit_month_digit: "a \<in> set ''123456789'' \<Longrightarrow> is_digit a"
  by (auto simp: is_digit_def)

lemma two_digit_month:
  assumes "is_digit a" and "is_digit b"
  shows "1 \<le> 10 * digit_val a + digit_val b \<and> 10 * digit_val a + digit_val b \<le> 12
     \<longleftrightarrow> (a = CHR ''1'' \<and> b \<in> set ''012'') \<or> (a = CHR ''0'' \<and> b \<in> set ''123456789'')"
  using assms unfolding digit_cases by (elim disjE) (simp_all add: digit_val_def)

lemma two_digit_month_digits:
  "(a = CHR ''1'' \<and> b \<in> set ''012'') \<or> (a = CHR ''0'' \<and> b \<in> set ''123456789'')
     \<Longrightarrow> is_digit a \<and> is_digit b"
  by (auto simp: is_digit_def)

lemma strptime_accepts_iff:
  "strptime_ymd (y1 # y2 # y3 # y4 # dash # r) \<noteq> None
     \<longleftrightarrow> is_digit y1 \<and> is_digit y2 \<and> is_digit y3 \<and> is_digit y4 \<and> dash = CHR ''-''
         \<and> (case month_day_matches r of
               [] \<Rightarrow> False
             | (m, d, rest) # _ \<Rightarrow> rest = [] \<and> valid_date (digits_nat [y1, y2, y3, y4]) m d)"
  by (auto simp: strptime_ymd_def Let_def split: list.splits)

lemma month_day_iff:
  "(case month_day_matches r of [] \<Rightarrow> False | (m, d, rest) # _ \<Rightarrow> rest = [] \<and> valid_date y m d)
     \<longleftrightarrow> (let ms = takeWhile (\<lambda>c. c \<noteq> CHR ''-'') r;
              ds = drop 1 (dropWhile (\<lambda>c. c \<noteq> CHR ''-'') r)
          in r = ms @ ''-'' @ ds \<and> month_text ms \<and> day_text ds
             \<and> valid_date y (digits_nat ms) (digits_nat ds))"
  (is "?L r \<longleftrightarrow> ?R r")
proof (cases r)
  case Nil
  then show ?thesis by (simp add: month_short month_text_def)
next
  case r: (Cons a r1)
  show ?thesis
  proof (cases r1)
    case Nil
    with r show ?thesis by (auto simp: month_short month_text_def)
  next
    case r1: (Cons b r2)
    show ?thesis
    proof (cases "b = CHR ''-''")
      case b: True
      show ?thesis
      proof (cases "a = CHR ''-''")
        case True
        with r r1 b show ?thesis by (simp add: month_one month_text_def)
      next
        case a: False
        have R: "?R r \<longleftrightarrow> is_digit a \<and> day_text r2 \<and> valid_date y (digits_nat [a]) (digits_nat r2)"
          using r r1 b a by (simp add: month_text_def)
        show ?thesis
        proof (cases "a \<in> set ''123456789''")
          case True
          then have d: "is_digit a" by (rule one_digit_month_digit)
          have "?L r \<longleftrightarrow> day_text r2 \<and> 1 \<le> digits_nat r2 \<and> digits_nat r2 \<le> 31
                        \<and> valid_date y (digit_val a) (digits_nat r2)"
            unfolding r r1 b month_one using True
            by (simp only: if_True case_map_day day_first_match)
          also have "\<dots> \<longleftrightarrow> day_text r2 \<and> valid_date y (digit_val a) (digits_nat r2)"
            using valid_date_ranges by blast
          finally show ?thesis unfolding R using d by (simp add: digit_val_digit)
        next
          case False
          then have L: "\<not> ?L r" unfolding r r1 b month_one by simp
          have "\<not> (is_digit a \<and> valid_date y (digits_nat [a]) (digits_nat r2))"
          proof
            assume h: "is_digit a \<and> valid_date y (digits_nat [a]) (digits_nat r2)"
            then have "1 \<le> digit_val a" using valid_date_ranges by (auto simp: digit_val_digit)
            with h False show False using one_digit_month by blast
          qed
          with L show ?thesis unfolding R by blast
        qed
      qed
    next
      case b: False
      show ?thesis
      proof (cases r2)
        case Nil
        with r r1 b show ?thesis by (auto simp: month_none month_text_def)
      next
        case r2: (Cons c r3)
        show ?thesis
        proof (cases "c = CHR ''-''")
          case c: False
          have "\<not> ?L r" unfolding r r1 r2 using month_none(2) [OF b c] by simp
          moreover have "\<not> ?R r" using r r1 r2 b c by (auto simp: month_text_def)
          ultimately show ?thesis by blast
        next
          case c: True
          show ?thesis
          proof (cases "a = CHR ''-''")
            case True
            with r r1 r2 b c show ?thesis by (simp add: month_two month_text_def)
          next
            case a: False
            have R: "?R r \<longleftrightarrow> is_digit a \<and> is_digit b \<and> day_text r3
                        \<and> valid_date y (digits_nat [a, b]) (digits_nat r3)"
              using r r1 r2 a b c by (auto simp: month_text_def)
            let ?ok = "(a = CHR ''1'' \<and> b \<in> set ''012'') \<or> (a = CHR ''0'' \<and> b \<in> set ''123456789'')"
            show ?thesis
            proof (cases ?ok)
              case True
              then have d: "is_digit a \<and> is_digit b" by (rule two_digit_month_digits)
              have "?L r \<longleftrightarrow> day_text r3 \<and> 1 \<le> digits_nat r3 \<and> digits_nat r3 \<le> 31
                        \<and> valid_date y (10 * digit_val a + digit_val b) (digits_nat r3)"
                unfolding r r1 r2 c month_two [OF b] using True
                by (simp only: if_True case_map_day day_first_match)
              also have "\<dots> \<longleftrightarrow> day_text r3 \<and> valid_date y (10 * digit_val a + digit_val b) (digits_nat r3)"
                using valid_date_ranges by blast
              finally show ?thesis unfolding R using d by (simp add: digits_nat_2)
            next
              case False
              have L: "\<not> ?L r" unfolding r r1 r2 c month_two [OF b] if_not_P [OF False] by simp
              have "\<not> (is_digit a \<and> is_digit b \<and> valid_date y (digits_nat [a, b]) (digits_nat r3))"
              proof
                assume h: "is_digit a \<and> is_digit b \<and> valid_date y (digits_nat [a, b]) (digits_nat r3)"
                then have da: "is_digit a" and db: "is_digit b"
                  and vd: "valid_date y (digits_nat [a, b]) (digits_nat r3)"
                  by blast+
                have v: "valid_date y (10 * digit_val a + digit_val b) (digits_nat r3)"
                  using vd unfolding digits_nat_2 [OF da db] .
                have "1 \<le> 10 * digit_val a + digit_val b \<and> 10 * digit_val a + digit_val b \<le> 12"
                  using valid_date_ranges [OF v] by blast
                with h False show False using two_digit_month by blast
              qed
              with L show ?thesis unfolding R by blast
            qed
          qed
        qed
      qed
    qed
  qed
qed

lemma strptime_ymd_lenient: "strptime_ymd s \<noteq> None \<longleftrightarrow> lenient_ymd s"
proof -
  have "5 \<le> length s \<Longrightarrow> \<exists>y1 y2 y3 y4 dash r. s = y1 # y2 # y3 # y4 # dash # r"
    by (auto simp: Suc_le_length_iff eval_nat_numeral)
  then consider (short) "length s < 5"
    | (long) y1 y2 y3 y4 dash r where "s = y1 # y2 # y3 # y4 # dash # r"
    by (cases "length s < 5") auto
  then show ?thesis
  proof cases
    case short
    then show ?thesis
      by (auto simp: strptime_ymd_def lenient_ymd_def split: list.splits)
  next
    case long
    show ?thesis
      unfolding long strptime_accepts_iff month_day_iff
      by (auto simp: lenient_ymd_def Let_def)
  qed
qed

text \<open>
  C7, as the code has it. For a date field whose payload value passes the emptiness
  test and is ASCII text, the date message is emitted exactly when the trimmed string
  is not a four-digit year, a dash, a month of one or two digits, a dash and a day of
  one or two digits (or a space and a digit) that name a date of the calendar. Every
  string of the strict form YYYY-MM-DD is accepted, so a message always means the
  string is not of the strict form; the converse fails.
\<close>

theorem date_field_strptime:
  assumes "map_of cfg ''type'' = Some (PStr ''date'')"
    and "map_of data f = Some v" and "py_truthy v" and "is_ascii (py_str v)"
  shows "check_field data f (PDict cfg) =
           Inr (if lenient_ymd (py_strip (py_str v))
                then [] else [f @ '' must be in YYYY-MM-DD format''])
         \<and> (strict_ymd (py_strip (py_str v)) \<longrightarrow> check_field data f (PDict cfg) = Inr [])"
proof -
  have c: "check_field data f (PDict cfg) = Inr (check_date f (py_strip (py_str v)))"
    using assms(1,2,3) by (rule check_field_date)
  have "check_date f (py_strip (py_str v)) =
          (if lenient_ymd (py_strip (py_str v))
           then [] else [f @ '' must be in YYYY-MM-DD format''])"
    using strptime_ymd_lenient [of "py_strip (py_str v)"]
    by (auto simp: check_date_def split: option.splits)
  with c strict_ymd_accepted [of "py_strip (py_str v)"]
    strptime_ymd_lenient [of "py_strip (py_str v)"]
  show ?thesis by auto
qed

theorem date_field_strptime_witness:
  "is_ascii (py_str (PStr ''2023-13-40''))
   \<and> validate_form_data [(''joined'', PStr ''2023-13-40'')] [(''joined'', PDict [(''type'', PStr ''date'')])]
     = Inr (False, [''joined must be in YYYY-MM-DD format''])
   \<and> check_field [(''joined'', PStr ''2023-13-40'')] ''joined'' (PDict [(''type'', PStr ''date'')])
     = Inr [''joined must be in YYYY-MM-DD format'']
   \<and> strict_ymd ''2024-02-29''
   \<and> check_field [(''joined'', PStr '' 2024-02-29 '')] ''joined'' (PDict [(''type'', PStr ''date'')])
     = Inr []
   \<and> map lenient_ymd [''2023-02-29'', ''2023-02-31'', ''1900-02-29'', ''2000-02-29'', ''2023-04-31'',
                       ''2024-02-29xyz'', ''0000-01-01'', ''2023-12- 5'', ''2023-1-5'', ''2023-12-31'']
     = [False, False, False, True, False, False, False, True, True, True]
   \<and> map (\<lambda>s. validate_form_data [(''joined'', PStr s)] [(''joined'', PDict [(''type'', PStr ''date'')])]
                = Inr (True, []))
         [''2023-02-29'', ''2023-02-31'', ''1900-02-29'', ''2000-02-29'', ''2023-04-31'',
          ''2024-02-29xyz'', ''0000-01-01'', ''2023-12- 5'', ''2023-1-5'', ''2023-12-31'']
     = [False, False, False, True, False, False, False, True, True, True]"
proof -
  have t: "map_of [(''type'', PStr ''date'')] ''type'' = Some (PStr ''date'')" by simp
  have a: "map_of [(''joined'', PStr ''2023-13-40'')] ''joined'' = Some (PStr ''2023-13-40'')" by simp
  have b: "map_of [(''joined'', PStr '' 2024-02-29 '')] ''joined'' = Some (PStr '' 2024-02-29 '')" by simp
  have ta: "py_truthy (PStr ''2023-13-40'')" and tb: "py_truthy (PStr '' 2024-02-29 '')" by simp_all
  have aa: "is_ascii (py_str (PStr ''2023-13-40''))" and ab: "is_ascii (py_str (PStr '' 2024-02-29 ''))"
    by code_simp+
  have sa: "lenient_ymd (py_strip (py_str (PStr ''2023-13-40''))) = False" by code_simp
  have sb: "py_strip (py_str (PStr '' 2024-02-29 '')) = ''2024-02-29''" by code_simp
  have st: "strict_ymd ''2024-02-29''" by code_simp
  have v: "validate_form_data [(''joined'', PStr ''2023-13-40'')] [(''joined'', PDict [(''type'', PStr ''date'')])]
     = Inr (False, [''joined must be in YYYY-MM-DD format''])" by code_simp
  have r1: "check_field [(''joined'', PStr ''2023-13-40'')] ''joined'' (PDict [(''type'', PStr ''date'')])
     = Inr [''joined must be in YYYY-MM-DD format'']"
    using date_field_strptime [OF t a ta aa, THEN conjunct1] by (simp add: sa)
  have r2: "check_field [(''joined'', PStr '' 2024-02-29 '')] ''joined'' (PDict [(''type'', PStr ''date'')])
     = Inr []"
    using date_field_strptime [OF t b tb ab, THEN conjunct2] st unfolding sb by (rule mp)
  have l: "map lenient_ymd [''2023-02-29'', ''2023-02-31'', ''1900-02-29'', ''2000-02-29'', ''2023-04-31'',
                       ''2024-02-29xyz'', ''0000-01-01'', ''2023-12- 5'', ''2023-1-5'', ''2023-12-31'']
     = [False, False, False, True, False, False, False, True, True, True]"
    by code_simp
  have m: "map (\<lambda>s. validate_form_data [(''joined'', PStr s)] [(''joined'', PDict [(''type'', PStr ''date'')])]
                = Inr (True, []))
         [''2023-02-29'', ''2023-02-31'', ''1900-02-29'', ''2000-02-29'', ''2023-04-31'',
          ''2024-02-29xyz'', ''0000-01-01'', ''2023-12- 5'', ''2023-1-5'', ''2023-12-31'']
     = [False, False, False, True, False, False, False, True, True, True]"
    by code_simp
  from aa v r1 st r2 l m show ?thesis by blast
qed

text \<open>
  C7 as stated fails: "2023-1-5" has a one-digit month and day and "2023-12- 5" a
  space in its day, so neither is of the form YYYY-MM-DD, and yet no message is
  emitted for them.
\<close>

theorem one_digit_date_accepted:
  "validate_form_data [(''joined'', PStr ''2023-1-5'')] [(''joined'', PDict [(''type'', PStr ''date'')])]
     = Inr (True, [])
   \<and> \<not> strict_ymd ''2023-1-5''
   \<and> validate_form_data [(''joined'', PStr ''2023-12- 5'')] [(''joined'', PDict [(''type'', PStr ''date'')])]
     = Inr (True, [])
   \<and> \<not> strict_ymd ''2023-12- 5''"
  by code_simp

section \<open>Properties of the cache store\<close>

lemma glob_star: "glob_match ''*'' s"
  by (induction s) auto

lemma glob_prefix:
  assumes "\<forall>c \<in> set p. \<not> metachar c"
  shows "glob_match (p @ ''*'') s \<longleftrightarrow> prefix p s"
  using assms
proof (induction p arbitrary: s)
  case Nil
  show ?case using glob_star by simp
next
  case (Cons a p)
  then have a: "a \<noteq> CHR ''*''" "a \<noteq> CHR ''?''" "a \<noteq> CHR ''[''" "a \<noteq> CHR 0x5C"
    by (auto simp: metachar_def)
  from Cons have ih: "\<And>t. glob_match (p @ ''*'') t \<longleftrightarrow> prefix p t" by simp
  show ?case
  proof (cases s)
    case Nil
    with a show ?thesis by simp
  next
    case (Cons c t)
    with a ih show ?thesis by auto
  qed
qed

lemma delete_keys_reachable:
  assumes "reachable rd"
  shows "delete_keys rd keys n =
           Inr (n + length keys, rd\<lparr>entries := filter (\<lambda>e. fst e \<notin> set keys) (entries rd)\<rparr>)"
  using assms
proof (induction keys arbitrary: rd n)
  case Nil
  then show ?case by simp
next
  case (Cons k keys)
  let ?rd1 = "rd\<lparr>entries := filter (\<lambda>e. fst e \<noteq> k) (entries rd)\<rparr>"
  have r: "reachable ?rd1" using Cons.prems by simp
  have f: "filter (\<lambda>e. fst e \<notin> set keys) (entries ?rd1)
      = filter (\<lambda>e. fst e \<notin> set (k # keys)) (entries rd)"
    by (auto simp: filter_filter intro!: filter_cong)
  have "delete_keys rd (k # keys) n = delete_keys ?rd1 keys (n + 1)"
    using Cons.prems by (simp add: redis_delete_def)
  also have "\<dots> = Inr (n + 1 + length keys,
      ?rd1\<lparr>entries := filter (\<lambda>e. fst e \<notin> set keys) (entries ?rd1)\<rparr>)"
    by (rule Cons.IH [OF r])
  finally show ?case unfolding f by simp
qed

lemma scan_keys_set:
  "set (remdups (map fst (filter (\<lambda>e. live now e \<and> glob_match pat (fst e)) (entries rd))))
     = {k \<in> live_keys now rd. glob_match pat k}"
  by (auto simp: live_keys_def)

lemma redis_get_filter_keys:
  assumes "reachable rd" and "k \<notin> K"
  shows "redis_get now (rd\<lparr>entries := filter (\<lambda>e. fst e \<notin> K) (entries rd)\<rparr>) k = redis_get now rd k"
proof -
  have "map_of (filter (live now) (filter (\<lambda>e. fst e \<notin> K) xs)) k
        = map_of (filter (live now) xs) k" for xs
    using assms(2) by (induction xs) auto
  then show ?thesis using assms(1) by (simp add: redis_get_def)
qed

lemma redis_get_not_live:
  assumes "reachable rd" and "k \<notin> live_keys now rd"
  shows "redis_get now rd k = Inr None"
proof -
  have "k \<notin> fst ` set (filter (live now) (entries rd))"
    using assms(2) by (auto simp: live_keys_def)
  then have "map_of (filter (live now) (entries rd)) k = None"
    by (simp add: map_of_eq_None_iff)
  then show ?thesis using assms(1) by (simp add: redis_get_def)
qed

lemma live_keys_filter:
  "live_keys now (rd\<lparr>entries := filter (\<lambda>e. fst e \<notin> K) (entries rd)\<rparr>) = live_keys now rd - K"
  by (auto simp: live_keys_def)

lemma cache_delete_pattern_reachable:
  assumes "reachable rd"
  shows "cache_delete_pattern now (Some rd) pat =
           (card {k \<in> live_keys now rd. glob_match pat k},
            Some (rd\<lparr>entries := filter (\<lambda>e. fst e \<notin> {k \<in> live_keys now rd. glob_match pat k}) (entries rd)\<rparr>))"
proof -
  define keys where
    "keys = remdups (map fst (filter (\<lambda>e. live now e \<and> glob_match pat (fst e)) (entries rd)))"
  have s: "set keys = {k \<in> live_keys now rd. glob_match pat k}"
    unfolding keys_def by (rule scan_keys_set)
  have "distinct keys" unfolding keys_def by simp
  then have l: "length keys = card {k \<in> live_keys now rd. glob_match pat k}"
    using s distinct_card by fastforce
  have sc: "redis_scan_iter now rd pat = Inr keys"
    using assms by (simp add: redis_scan_iter_def keys_def)
  have d: "delete_keys rd keys 0 =
      Inr (length keys, rd\<lparr>entries := filter (\<lambda>e. fst e \<notin> set keys) (entries rd)\<rparr>)"
    using delete_keys_reachable [OF assms, of keys 0] by simp
  show ?thesis
    by (simp add: cache_delete_pattern_def sc d l s)
qed

lemma cache_delete_pattern_prefix:
  assumes "reachable rd" and "\<forall>c \<in> set p. \<not> metachar c"
  shows "\<exists>rd'. cache_delete_pattern now (Some rd) (p @ ''*'')
                 = (card {k \<in> live_keys now rd. prefix p k}, Some rd')
           \<and> entries rd' = filter (\<lambda>e. \<not> (prefix p (fst e) \<and> fst e \<in> live_keys now rd)) (entries rd)
           \<and> live_keys now rd' = {k \<in> live_keys now rd. \<not> prefix p k}
           \<and> (\<forall>k. redis_get now rd' k = (if prefix p k then Inr None else redis_get now rd k))"
proof -
  let ?K = "{k \<in> live_keys now rd. prefix p k}"
  let ?rd' = "rd\<lparr>entries := filter (\<lambda>e. fst e \<notin> ?K) (entries rd)\<rparr>"
  have g: "{k \<in> live_keys now rd. glob_match (p @ ''*'') k} = ?K"
    using glob_prefix [OF assms(2)] by simp
  have c: "cache_delete_pattern now (Some rd) (p @ ''*'') = (card ?K, Some ?rd')"
    using cache_delete_pattern_reachable [OF assms(1), of now "p @ ''*''"] unfolding g .
  have e: "entries ?rd' = filter (\<lambda>e. \<not> (prefix p (fst e) \<and> fst e \<in> live_keys now rd)) (entries rd)"
    by (auto intro!: filter_cong)
  have lk: "live_keys now ?rd' = {k \<in> live_keys now rd. \<not> prefix p k}"
    unfolding live_keys_filter by auto
  have r: "reachable ?rd'" using assms(1) by simp
  have "redis_get now ?rd' k = (if prefix p k then Inr None else redis_get now rd k)" for k
  proof (cases "prefix p k")
    case True
    then have "k \<notin> live_keys now ?rd'" unfolding lk by simp
    from redis_get_not_live [OF r this] True show ?thesis by simp
  next
    case False
    then have "k \<notin> ?K" by simp
    from redis_get_filter_keys [OF assms(1) this] False show ?thesis by simp
  qed
  with c e lk show ?thesis by blast
qed

text \<open>
  C9. With the server reachable and a pattern that is a literal prefix followed by
  \<^verbatim>\<open>*\<close>, \<^verbatim>\<open>cache_delete_pattern\<close> returns the number of live keys that start with
  the prefix and removes exactly the entries of those keys: afterwards no key with the
  prefix is found, and every other key reads as before.
\<close>

theorem delete_pattern_prefix:
  assumes "reachable rd" and "\<forall>c \<in> set p. \<not> metachar c"
  shows "\<exists>rd'. cache_delete_pattern now (Some rd) (p @ ''*'')
                 = (card {k \<in> live_keys now rd. prefix p k}, Some rd')
           \<and> entries rd' = filter (\<lambda>e. \<not> (prefix p (fst e) \<and> fst e \<in> live_keys now rd)) (entries rd)
           \<and> live_keys now rd' = {k \<in> live_keys now rd. \<not> prefix p k}
           \<and> (\<forall>k. redis_get now rd' k = (if prefix p k then Inr None else redis_get now rd k))"
  using assms by (rule cache_delete_pattern_prefix)

theorem delete_pattern_prefix_witness:
  "reachable \<lparr>reachable = True,
       entries = [(''GET:/api/forms/1'', ''{}'', 10), (''GET:/api/submissions/'', ''[]'', 10),
                  (''GET:/api/forms/'', ''[]'', 10)]\<rparr>
   \<and> cache_delete_pattern 0
        (Some \<lparr>reachable = True,
           entries = [(''GET:/api/forms/1'', ''{}'', 10), (''GET:/api/submissions/'', ''[]'', 10),
                      (''GET:/api/forms/'', ''[]'', 10)]\<rparr>) ''GET:/api/forms*''
       = (2, Some \<lparr>reachable = True, entries = [(''GET:/api/submissions/'', ''[]'', 10)]\<rparr>)"
proof -
  let ?rd = "\<lparr>reachable = True,
       entries = [(''GET:/api/forms/1'', ''{}'', 10), (''GET:/api/submissions/'', ''[]'', 10),
                  (''GET:/api/forms/'', ''[]'', (10::nat))]\<rparr>"
  have h1: "reachable ?rd" by simp
  have h2: "\<forall>c \<in> set ''GET:/api/forms''. \<not> metachar c" by (simp add: metachar_def)
  have v: "cache_delete_pattern 0 (Some ?rd) (''GET:/api/forms'' @ ''*'')
       = (2, Some \<lparr>reachable = True, entries = [(''GET:/api/submissions/'', ''[]'', 10)]\<rparr>)"
    by code_simp
  from delete_pattern_prefix [OF h1 h2, of 0] h1 v show ?thesis by simp
qed

section \<open>Properties of the gateway middleware\<close>

lemma cache_get_hit:
  assumes "redis_get now rd key = Inr (Some d)" and "d \<noteq> []" and "loads js d = Some v"
  shows "cache_get js now (Some rd) key = v"
  using assms by (simp add: cache_get_def)

lemma cache_set_reachable:
  assumes "reachable rd" and "dumps js v = Some enc" and "0 < ttl"
  shows "cache_set js now (Some rd) key v ttl
           = Some (rd\<lparr>entries := (key, enc, now + ttl) # filter (\<lambda>e. fst e \<noteq> key) (entries rd)\<rparr>)"
  using assms by (simp add: cache_set_def redis_setex_def)

lemma redis_get_after_setex:
  assumes "reachable rd" and "now' < ex"
  shows "redis_get now' (rd\<lparr>entries := (key, enc, ex) # es\<rparr>) key = Inr (Some enc)"
  using assms by (simp add: redis_get_def live_def)

lemma middleware_hit:
  assumes "req_method req = ''GET''" and "prefix ''/api/'' (req_path req)"
    and "store g = Some rd"
    and "redis_get now rd (cache_key_of req) = Inr (Some d)"
    and "d \<noteq> []" and "loads js d = Some v" and "py_truthy v"
  shows "cache_middleware js now h req g
           = (JSONResponse js v, g\<lparr>log := log g @ [Cache_hit (req_path req)]\<rparr>)"
proof -
  have "cache_get js now (store g) (cache_key_of req) = v"
    unfolding assms(3) using assms(4,5,6) by (rule cache_get_hit)
  with assms(1,2,7) show ?thesis
    by (simp add: cache_middleware_def Let_def)
qed

lemma middleware_miss_cached:
  assumes "req_method req = ''GET''" and "prefix ''/api/'' (req_path req)"
    and "store g = Some rd" and "reachable rd"
    and "\<not> py_truthy (cache_get js now (Some rd) (cache_key_of req))"
    and "h req (world g) = (resp, w')" and "status_code resp = 200"
    and "loads js (sent_body resp) = Some v" and "dumps js v = Some enc"
  shows "cache_middleware js now h req g
           = (Inr \<lparr>status_code = 200, body_iterator = [sent_body resp]\<rparr>,
              g\<lparr>store := Some (rd\<lparr>entries := (cache_key_of req, enc, now + 3600)
                                  # filter (\<lambda>e. fst e \<noteq> cache_key_of req) (entries rd)\<rparr>),
                world := w',
                log := log g @ [Cache_miss (req_path req), Handler_called, Cached (req_path req)]\<rparr>)"
  using assms cache_set_reachable [OF assms(4,9), of 3600 now "cache_key_of req"]
  by (simp add: cache_middleware_def Let_def call_next_def cache_response_def sent_body_def)




text \<open>
  The truth test of the hit branch also turns away an empty document that the miss
  branch has stored and logged as cached: the key holds \<^verbatim>\<open>{}\<close>, the lookup returns
  it, and the handler is invoked all the same.
\<close>

theorem empty_document_hit_calls_handler:
  "redis_get 0 \<lparr>reachable = True, entries = [(''GET:/api/forms/'', ''{}'', 100)]\<rparr>
       (cache_key_of (GET ''/api/forms/'')) = Inr (Some ''{}'')
   \<and> cache_get sample_json 0 (Some \<lparr>reachable = True, entries = [(''GET:/api/forms/'', ''{}'', 100)]\<rparr>)
       (cache_key_of (GET ''/api/forms/'')) = PDict []
   \<and> cache_middleware sample_json 0 (counting_handler 200 ''[1, 2]'') (GET ''/api/forms/'')
         (start (Some \<lparr>reachable = True, entries = [(''GET:/api/forms/'', ''{}'', 100)]\<rparr>))
       = (Inr \<lparr>status_code = 200, body_iterator = [''[1, 2]'']\<rparr>,
          \<lparr>store = Some \<lparr>reachable = True, entries = [(''GET:/api/forms/'', ''[1, 2]'', 3600)]\<rparr>,
             world = 1,
             log = [Cache_miss ''/api/forms/'', Handler_called, Cached ''/api/forms/'']\<rparr>)"
  by code_simp

text \<open>
  C3, as the code has it. With the server reachable, a GET under \<^verbatim>\<open>/api/\<close> that
  misses, whose handler answers 200 with a body that decodes to a non-empty document
  the framework can render, is answered with the handler's body and stored for 3600
  seconds; the same request within that time is answered from the cache with the
  rendering of the document, whatever the handler, and the world is not touched again.
  The two responses are the same exactly when the handler's body is that rendering.
  When the first request is itself a hit and the entry is still live at the second,
  both have the same outcome and neither reaches the handler.
\<close>

theorem repeated_get_served_from_cache:
  assumes "req_method req = ''GET''" and "prefix ''/api/'' (req_path req)"
    and "store g = Some rd" and "reachable rd"
  shows "(\<not> py_truthy (cache_get js now (Some rd) (cache_key_of req))
          \<and> h req (world g) = (resp, w') \<and> status_code resp = 200
          \<and> loads js (sent_body resp) = Some v \<and> py_truthy v \<and> render js v = Some b
          \<and> dumps js v = Some enc \<and> enc \<noteq> [] \<and> loads js enc = Some v
          \<and> now' < now + 3600
          \<longrightarrow> (\<exists>g1. cache_middleware js now h req g
                      = (Inr \<lparr>status_code = 200, body_iterator = [sent_body resp]\<rparr>, g1)
                 \<and> world g1 = w'
                 \<and> cache_middleware js now' h' req g1
                      = (Inr \<lparr>status_code = 200, body_iterator = [b]\<rparr>,
                         g1\<lparr>log := log g1 @ [Cache_hit (req_path req)]\<rparr>)
                 \<and> (fst (cache_middleware js now' h' req g1) = fst (cache_middleware js now h req g)
                      \<longleftrightarrow> b = sent_body resp)))
         \<and> (redis_get now rd (cache_key_of req) = Inr (Some d)
          \<and> redis_get now' rd (cache_key_of req) = Inr (Some d)
          \<and> d \<noteq> [] \<and> loads js d = Some v \<and> py_truthy v
          \<longrightarrow> cache_middleware js now h req g
                  = (JSONResponse js v, g\<lparr>log := log g @ [Cache_hit (req_path req)]\<rparr>)
              \<and> cache_middleware js now' h' req (snd (cache_middleware js now h req g))
                  = (JSONResponse js v,
                     g\<lparr>log := log g @ [Cache_hit (req_path req), Cache_hit (req_path req)]\<rparr>))"
proof (intro conjI impI)
  assume a: "\<not> py_truthy (cache_get js now (Some rd) (cache_key_of req))
          \<and> h req (world g) = (resp, w') \<and> status_code resp = 200
          \<and> loads js (sent_body resp) = Some v \<and> py_truthy v \<and> render js v = Some b
          \<and> dumps js v = Some enc \<and> enc \<noteq> [] \<and> loads js enc = Some v
          \<and> now' < now + 3600"
  define rd1 where "rd1 = rd\<lparr>entries := (cache_key_of req, enc, now + 3600)
                                  # filter (\<lambda>e. fst e \<noteq> cache_key_of req) (entries rd)\<rparr>"
  define g1 where "g1 = g\<lparr>store := Some rd1, world := w',
                log := log g @ [Cache_miss (req_path req), Handler_called, Cached (req_path req)]\<rparr>"
  have first: "cache_middleware js now h req g
                 = (Inr \<lparr>status_code = 200, body_iterator = [sent_body resp]\<rparr>, g1)"
    unfolding g1_def rd1_def
    using assms a by (intro middleware_miss_cached) auto
  have "redis_get now' rd1 (cache_key_of req) = Inr (Some enc)"
    unfolding rd1_def using assms(4) a by (intro redis_get_after_setex) auto
  then have "cache_middleware js now' h' req g1
      = (JSONResponse js v, g1\<lparr>log := log g1 @ [Cache_hit (req_path req)]\<rparr>)"
    using assms(1,2) a by (intro middleware_hit [where rd = rd1 and d = enc]) (auto simp: g1_def)
  then have second: "cache_middleware js now' h' req g1
      = (Inr \<lparr>status_code = 200, body_iterator = [b]\<rparr>,
         g1\<lparr>log := log g1 @ [Cache_hit (req_path req)]\<rparr>)"
    using a by (simp add: JSONResponse_def)
  have "world g1 = w'" by (simp add: g1_def)
  moreover have "fst (cache_middleware js now' h' req g1) = fst (cache_middleware js now h req g)
                      \<longleftrightarrow> b = sent_body resp"
    by (simp add: first second)
  ultimately show "\<exists>g1. cache_middleware js now h req g
                      = (Inr \<lparr>status_code = 200, body_iterator = [sent_body resp]\<rparr>, g1)
                 \<and> world g1 = w'
                 \<and> cache_middleware js now' h' req g1
                      = (Inr \<lparr>status_code = 200, body_iterator = [b]\<rparr>,
                         g1\<lparr>log := log g1 @ [Cache_hit (req_path req)]\<rparr>)
                 \<and> (fst (cache_middleware js now' h' req g1) = fst (cache_middleware js now h req g)
                      \<longleftrightarrow> b = sent_body resp)"
    using first second by blast
next
  assume b: "redis_get now rd (cache_key_of req) = Inr (Some d)
          \<and> redis_get now' rd (cache_key_of req) = Inr (Some d)
          \<and> d \<noteq> [] \<and> loads js d = Some v \<and> py_truthy v"
  show one: "cache_middleware js now h req g
                  = (JSONResponse js v, g\<lparr>log := log g @ [Cache_hit (req_path req)]\<rparr>)"
    using assms(1,2,3) b by (intro middleware_hit [where rd = rd and d = d]) auto
  have "cache_middleware js now' h' req (g\<lparr>log := log g @ [Cache_hit (req_path req)]\<rparr>)
          = (JSONResponse js v,
             (g\<lparr>log := log g @ [Cache_hit (req_path req)]\<rparr>)
               \<lparr>log := log (g\<lparr>log := log g @ [Cache_hit (req_path req)]\<rparr>) @ [Cache_hit (req_path req)]\<rparr>)"
    using assms(1,2,3) b by (intro middleware_hit [where rd = rd and d = d]) auto
  then show "cache_middleware js now' h' req (snd (cache_middleware js now h req g))
                  = (JSONResponse js v,
                     g\<lparr>log := log g @ [Cache_hit (req_path req), Cache_hit (req_path req)]\<rparr>)"
    by (simp add: one)
qed

theorem repeated_get_served_from_cache_witness:
  "(fst (cache_middleware sample_json 0 (counting_handler 200 ''[1,2]'') (GET ''/api/forms/'')
          (start (Some \<lparr>reachable = True, entries = []\<rparr>)))
     = Inr \<lparr>status_code = 200, body_iterator = [''[1,2]'']\<rparr>
   \<and> fst (cache_middleware sample_json 5 (counting_handler 200 ''[1,2]'') (GET ''/api/forms/'')
          (snd (cache_middleware sample_json 0 (counting_handler 200 ''[1,2]'') (GET ''/api/forms/'')
                  (start (Some \<lparr>reachable = True, entries = []\<rparr>)))))
     = Inr \<lparr>status_code = 200, body_iterator = [''[1,2]'']\<rparr>
   \<and> world (snd (cache_middleware sample_json 5 (counting_handler 200 ''[1,2]'') (GET ''/api/forms/'')
          (snd (cache_middleware sample_json 0 (counting_handler 200 ''[1,2]'') (GET ''/api/forms/'')
                  (start (Some \<lparr>reachable = True, entries = []\<rparr>)))))) = 1)
   \<and> (cache_middleware sample_json 0 (counting_handler 200 ''[]'') (GET ''/api/forms/'')
       (start (Some \<lparr>reachable = True, entries = [(''GET:/api/forms/'', ''[1, 2]'', 100)]\<rparr>))
     = (Inr \<lparr>status_code = 200, body_iterator = [''[1,2]'']\<rparr>,
        \<lparr>store = Some \<lparr>reachable = True, entries = [(''GET:/api/forms/'', ''[1, 2]'', 100)]\<rparr>,
           world = 0, log = [Cache_hit ''/api/forms/'']\<rparr>)
   \<and> cache_middleware sample_json 5 (counting_handler 200 ''[]'') (GET ''/api/forms/'')
       (snd (cache_middleware sample_json 0 (counting_handler 200 ''[]'') (GET ''/api/forms/'')
          (start (Some \<lparr>reachable = True, entries = [(''GET:/api/forms/'', ''[1, 2]'', 100)]\<rparr>))))
     = (Inr \<lparr>status_code = 200, body_iterator = [''[1,2]'']\<rparr>,
        \<lparr>store = Some \<lparr>reachable = True, entries = [(''GET:/api/forms/'', ''[1, 2]'', 100)]\<rparr>,
           world = 0, log = [Cache_hit ''/api/forms/'', Cache_hit ''/api/forms/'']\<rparr>))"
proof -
  have miss_then_hit:
    "fst (cache_middleware sample_json 0 (counting_handler 200 ''[1,2]'') (GET ''/api/forms/'')
          (start (Some \<lparr>reachable = True, entries = []\<rparr>)))
     = Inr \<lparr>status_code = 200, body_iterator = [''[1,2]'']\<rparr>
   \<and> fst (cache_middleware sample_json 5 (counting_handler 200 ''[1,2]'') (GET ''/api/forms/'')
          (snd (cache_middleware sample_json 0 (counting_handler 200 ''[1,2]'') (GET ''/api/forms/'')
                  (start (Some \<lparr>reachable = True, entries = []\<rparr>)))))
     = Inr \<lparr>status_code = 200, body_iterator = [''[1,2]'']\<rparr>
   \<and> world (snd (cache_middleware sample_json 5 (counting_handler 200 ''[1,2]'') (GET ''/api/forms/'')
          (snd (cache_middleware sample_json 0 (counting_handler 200 ''[1,2]'') (GET ''/api/forms/'')
                  (start (Some \<lparr>reachable = True, entries = []\<rparr>)))))) = 1"
  proof -
    let ?rd = "\<lparr>reachable = True, entries = []\<rparr>"
    let ?h = "counting_handler 200 ''[1,2]''"
    let ?req = "GET ''/api/forms/''"
    let ?resp = "\<lparr>status_code = 200, body_iterator = [''[1,2]'']\<rparr>"
    let ?v = "PList [PInt 1, PInt 2]"
    have h1: "req_method ?req = ''GET''" and h2: "prefix ''/api/'' (req_path ?req)"
      by (simp_all add: GET_def)
    have h3: "store (start (Some ?rd)) = Some ?rd" by (simp add: start_def)
    have h4: "reachable ?rd" by simp
    have m: "\<not> py_truthy (cache_get sample_json 0 (Some ?rd) (cache_key_of ?req))
            \<and> ?h ?req (world (start (Some ?rd))) = (?resp, 1) \<and> status_code ?resp = 200
            \<and> loads sample_json (sent_body ?resp) = Some ?v \<and> py_truthy ?v
            \<and> render sample_json ?v = Some ''[1,2]''
            \<and> dumps sample_json ?v = Some ''[1, 2]'' \<and> ''[1, 2]'' \<noteq> []
            \<and> loads sample_json ''[1, 2]'' = Some ?v
            \<and> (5::nat) < 0 + 3600"
      by (simp add: cache_get_def redis_get_def counting_handler_def start_def sample_json_def
            sent_body_def)
    from repeated_get_served_from_cache
           [where js = sample_json and now = 0 and h = ?h and resp = ?resp and w' = 1 and v = ?v
              and b = "''[1,2]''" and enc = "''[1, 2]''" and now' = 5 and h' = ?h,
            OF h1 h2 h3 h4, THEN conjunct1, rule_format, OF m]
    obtain g1 where
      a: "cache_middleware sample_json 0 ?h ?req (start (Some ?rd))
            = (Inr \<lparr>status_code = 200, body_iterator = [sent_body ?resp]\<rparr>, g1)"
      and b: "world g1 = 1"
      and c: "cache_middleware sample_json 5 ?h ?req g1
                = (Inr \<lparr>status_code = 200, body_iterator = [''[1,2]'']\<rparr>,
                   g1\<lparr>log := log g1 @ [Cache_hit (req_path ?req)]\<rparr>)"
      by blast
    show ?thesis
      by (simp add: a b c sent_body_def)
  qed
  have hit_twice:
    "cache_middleware sample_json 0 (counting_handler 200 ''[]'') (GET ''/api/forms/'')
       (start (Some \<lparr>reachable = True, entries = [(''GET:/api/forms/'', ''[1, 2]'', 100)]\<rparr>))
     = (Inr \<lparr>status_code = 200, body_iterator = [''[1,2]'']\<rparr>,
        \<lparr>store = Some \<lparr>reachable = True, entries = [(''GET:/api/forms/'', ''[1, 2]'', 100)]\<rparr>,
           world = 0, log = [Cache_hit ''/api/forms/'']\<rparr>)
   \<and> cache_middleware sample_json 5 (counting_handler 200 ''[]'') (GET ''/api/forms/'')
       (snd (cache_middleware sample_json 0 (counting_handler 200 ''[]'') (GET ''/api/forms/'')
          (start (Some \<lparr>reachable = True, entries = [(''GET:/api/forms/'', ''[1, 2]'', 100)]\<rparr>))))
     = (Inr \<lparr>status_code = 200, body_iterator = [''[1,2]'']\<rparr>,
        \<lparr>store = Some \<lparr>reachable = True, entries = [(''GET:/api/forms/'', ''[1, 2]'', 100)]\<rparr>,
           world = 0, log = [Cache_hit ''/api/forms/'', Cache_hit ''/api/forms/'']\<rparr>)"
  proof -
    let ?rd = "\<lparr>reachable = True, entries = [(''GET:/api/forms/'', ''[1, 2]'', (100::nat))]\<rparr>"
    let ?h = "counting_handler 200 ''[]''"
    let ?req = "GET ''/api/forms/''"
    let ?v = "PList [PInt 1, PInt 2]"
    have h1: "req_method ?req = ''GET''" and h2: "prefix ''/api/'' (req_path ?req)"
      by (simp_all add: GET_def)
    have h3: "store (start (Some ?rd)) = Some ?rd" by (simp add: start_def)
    have h4: "reachable ?rd" by simp
    have k: "redis_get 0 ?rd (cache_key_of ?req) = Inr (Some ''[1, 2]'')
            \<and> redis_get 5 ?rd (cache_key_of ?req) = Inr (Some ''[1, 2]'')
            \<and> ''[1, 2]'' \<noteq> [] \<and> loads sample_json ''[1, 2]'' = Some ?v \<and> py_truthy ?v"
      by (simp add: redis_get_def live_def cache_key_of_def GET_def sample_json_def)
    have r: "JSONResponse sample_json ?v = Inr \<lparr>status_code = 200, body_iterator = [''[1,2]'']\<rparr>"
      by (simp add: JSONResponse_def sample_json_def)
    from repeated_get_served_from_cache
           [where js = sample_json and now = 0 and h = ?h and v = ?v and d = "''[1, 2]''"
              and now' = 5 and h' = ?h,
            OF h1 h2 h3 h4, THEN conjunct2, rule_format, OF k]
    have a: "cache_middleware sample_json 0 ?h ?req (start (Some ?rd))
               = (JSONResponse sample_json ?v,
                  (start (Some ?rd))\<lparr>log := log (start (Some ?rd)) @ [Cache_hit (req_path ?req)]\<rparr>)"
      and b: "cache_middleware sample_json 5 ?h ?req
                (snd (cache_middleware sample_json 0 ?h ?req (start (Some ?rd))))
               = (JSONResponse sample_json ?v,
                  (start (Some ?rd))\<lparr>log := log (start (Some ?rd))
                                            @ [Cache_hit (req_path ?req), Cache_hit (req_path ?req)]\<rparr>)"
      by blast+
    show ?thesis
    proof (intro conjI)
      show "cache_middleware sample_json 0 ?h ?req (start (Some ?rd))
       = (Inr \<lparr>status_code = 200, body_iterator = [''[1,2]'']\<rparr>,
          \<lparr>store = Some ?rd, world = 0, log = [Cache_hit ''/api/forms/'']\<rparr>)"
        using a by (simp add: r start_def GET_def)
      show "cache_middleware sample_json 5 ?h ?req
         (snd (cache_middleware sample_json 0 ?h ?req (start (Some ?rd))))
       = (Inr \<lparr>status_code = 200, body_iterator = [''[1,2]'']\<rparr>,
          \<lparr>store = Some ?rd, world = 0,
             log = [Cache_hit ''/api/forms/'', Cache_hit ''/api/forms/'']\<rparr>)"
        using b by (simp add: r start_def GET_def)
    qed
  qed
  from miss_then_hit hit_twice show ?thesis by (rule conjI)
qed

text \<open>
  C3 as stated fails, by the design of the cache. (1) The hit renders the decoded
  document again instead of replaying the bytes: the handler's body \<^verbatim>\<open>[1, 2]\<close> comes
  back from the cache as \<^verbatim>\<open>[1,2]\<close>. (2) Only status 200 is stored: a handler that
  answers 201 is invoked again by the second request. (3) Only a body that decodes as
  JSON is stored: with the body \<^verbatim>\<open>hello\<close> the handler is invoked again. (4) A stored
  document the framework cannot render makes the second request raise.
\<close>

theorem second_response_differs:
  "fst (cache_middleware sample_json 0 (counting_handler 200 ''[1, 2]'') (GET ''/api/forms/'')
          (start (Some \<lparr>reachable = True, entries = []\<rparr>)))
     = Inr \<lparr>status_code = 200, body_iterator = [''[1, 2]'']\<rparr>
   \<and> cache_middleware sample_json 5 (counting_handler 200 ''[1, 2]'') (GET ''/api/forms/'')
          (snd (cache_middleware sample_json 0 (counting_handler 200 ''[1, 2]'') (GET ''/api/forms/'')
                  (start (Some \<lparr>reachable = True, entries = []\<rparr>))))
     = (Inr \<lparr>status_code = 200, body_iterator = [''[1,2]'']\<rparr>,
        \<lparr>store = Some \<lparr>reachable = True, entries = [(''GET:/api/forms/'', ''[1, 2]'', 3600)]\<rparr>,
           world = 1,
           log = [Cache_miss ''/api/forms/'', Handler_called, Cached ''/api/forms/'',
                  Cache_hit ''/api/forms/'']\<rparr>)
   \<and> world (snd (cache_middleware sample_json 5 (counting_handler 201 ''[1,2]'') (GET ''/api/forms/'')
          (snd (cache_middleware sample_json 0 (counting_handler 201 ''[1,2]'') (GET ''/api/forms/'')
                  (start (Some \<lparr>reachable = True, entries = []\<rparr>)))))) = 2
   \<and> world (snd (cache_middleware sample_json 5 (counting_handler 200 ''hello'') (GET ''/api/forms/'')
          (snd (cache_middleware sample_json 0 (counting_handler 200 ''hello'') (GET ''/api/forms/'')
                  (start (Some \<lparr>reachable = True, entries = []\<rparr>)))))) = 2
   \<and> fst (cache_middleware sample_json 5 (counting_handler 200 ''[Infinity]'') (GET ''/api/forms/'')
          (snd (cache_middleware sample_json 0 (counting_handler 200 ''[Infinity]'') (GET ''/api/forms/'')
                  (start (Some \<lparr>reachable = True, entries = []\<rparr>)))))
     = Inl ValueError"
  by code_simp

lemma mutation_not_get: "m \<in> {''POST'', ''PUT'', ''DELETE''} \<Longrightarrow> m \<noteq> ''GET''"
  by auto

lemma forms_prefix_plain: "\<forall>c \<in> set ''GET:/api/forms''. \<not> metachar c"
  by (simp add: metachar_def)

lemma submissions_prefix_plain: "\<forall>c \<in> set ''GET:/api/submissions''. \<not> metachar c"
  by (simp add: metachar_def)

lemma invalidate_reachable:
  assumes "store g = Some rd" and "reachable rd"
  shows "world (invalidate now req g) = world g
    \<and> (if str_contains ''/forms'' (req_path req) \<or> str_contains ''/create_form'' (req_path req) then
         swept now rd (store (invalidate now req g)) ''GET:/api/forms''
         \<and> log (invalidate now req g)
             = log g @ [Invalidated (card {k \<in> live_keys now rd. prefix ''GET:/api/forms'' k})
                          ''/api/forms/*'' (req_method req)]
       else if str_contains ''/submissions'' (req_path req) then
         swept now rd (store (invalidate now req g)) ''GET:/api/submissions''
         \<and> log (invalidate now req g)
             = log g @ [Invalidated (card {k \<in> live_keys now rd. prefix ''GET:/api/submissions'' k})
                          ''/api/submissions/*'' (req_method req)]
       else invalidate now req g = g)"
proof -
  from cache_delete_pattern_prefix [OF assms(2) forms_prefix_plain, of now]
  obtain rf where f: "cache_delete_pattern now (Some rd) ''GET:/api/forms*''
      = (card {k \<in> live_keys now rd. prefix ''GET:/api/forms'' k}, Some rf)"
    and fs: "swept now rd (Some rf) ''GET:/api/forms''"
    unfolding swept_def by auto
  from cache_delete_pattern_prefix [OF assms(2) submissions_prefix_plain, of now]
  obtain rs where s: "cache_delete_pattern now (Some rd) ''GET:/api/submissions*''
      = (card {k \<in> live_keys now rd. prefix ''GET:/api/submissions'' k}, Some rs)"
    and ss: "swept now rd (Some rs) ''GET:/api/submissions''"
    unfolding swept_def by auto
  show ?thesis
    using fs ss by (simp add: invalidate_def Let_def assms(1) f s)
qed

text \<open>
  C4, as the code has it. For a POST, PUT or DELETE under \<^verbatim>\<open>/api/\<close> with the server
  reachable, the handler is invoked first and its response is returned as it is; then,
  when the path contains \<^verbatim>\<open>/forms\<close> or \<^verbatim>\<open>/create_form\<close>, every live key starting with
  \<^verbatim>\<open>GET:/api/forms\<close> is removed and no other key changes; otherwise, when the path
  contains \<^verbatim>\<open>/submissions\<close>, the same holds for \<^verbatim>\<open>GET:/api/submissions\<close>; otherwise
  the store is left as it was and only the handler call is logged.
\<close>

theorem mutation_then_sweep:
  assumes "req_method req \<in> {''POST'', ''PUT'', ''DELETE''}" and "prefix ''/api/'' (req_path req)"
    and "store g = Some rd" and "reachable rd" and "h req (world g) = (resp, w')"
  shows "\<exists>g'. cache_middleware js now h req g = (Inr resp, g') \<and> world g' = w'
    \<and> (if str_contains ''/forms'' (req_path req) \<or> str_contains ''/create_form'' (req_path req) then
         swept now rd (store g') ''GET:/api/forms''
         \<and> log g' = log g @ [Handler_called,
               Invalidated (card {k \<in> live_keys now rd. prefix ''GET:/api/forms'' k})
                 ''/api/forms/*'' (req_method req)]
       else if str_contains ''/submissions'' (req_path req) then
         swept now rd (store g') ''GET:/api/submissions''
         \<and> log g' = log g @ [Handler_called,
               Invalidated (card {k \<in> live_keys now rd. prefix ''GET:/api/submissions'' k})
                 ''/api/submissions/*'' (req_method req)]
       else store g' = Some rd \<and> log g' = log g @ [Handler_called])"
proof -
  define g1 where "g1 = g\<lparr>world := w', log := log g @ [Handler_called]\<rparr>"
  have ng: "req_method req \<noteq> ''GET''" using assms(1) by (rule mutation_not_get)
  have c: "cache_middleware js now h req g = (Inr resp, invalidate now req g1)"
    using assms(1,2,5) ng by (simp add: cache_middleware_def Let_def call_next_def g1_def)
  have s1: "store g1 = Some rd" by (simp add: g1_def assms(3))
  from invalidate_reachable [OF s1 assms(4), of now req]
  show ?thesis unfolding c
    by (intro exI [of _ "invalidate now req g1"]) (auto simp: g1_def assms(3) split: if_splits)
qed

theorem mutation_then_sweep_witness:
  "req_method (POST ''/api/forms/'') \<in> {''POST'', ''PUT'', ''DELETE''}
   \<and> prefix ''/api/'' (req_path (POST ''/api/forms/''))
   \<and> cache_middleware sample_json 0 (counting_handler 201 ''{}'') (POST ''/api/forms/'')
         (start (Some \<lparr>reachable = True,
                    entries = [(''GET:/api/forms/'', ''[1, 2]'', 100),
                               (''GET:/api/submissions/'', ''[]'', 100)]\<rparr>))
       = (Inr \<lparr>status_code = 201, body_iterator = [''{}'']\<rparr>,
          \<lparr>store = Some \<lparr>reachable = True, entries = [(''GET:/api/submissions/'', ''[]'', 100)]\<rparr>,
             world = 1,
             log = [Handler_called, Invalidated 1 ''/api/forms/*'' ''POST'']\<rparr>)"
proof -
  let ?rd = "\<lparr>reachable = True,
                    entries = [(''GET:/api/forms/'', ''[1, 2]'', 100),
                               (''GET:/api/submissions/'', ''[]'', (100::nat))]\<rparr>"
  let ?req = "POST ''/api/forms/''"
  have h1: "req_method ?req \<in> {''POST'', ''PUT'', ''DELETE''}" by (simp add: POST_def)
  have h2: "prefix ''/api/'' (req_path ?req)" by (simp add: POST_def)
  have h3: "store (start (Some ?rd)) = Some ?rd" by (simp add: start_def)
  have h4: "reachable ?rd" by simp
  have h5: "counting_handler 201 ''{}'' ?req (world (start (Some ?rd)))
              = (\<lparr>status_code = 201, body_iterator = [''{}'']\<rparr>, 1)"
    by (simp add: counting_handler_def start_def)
  have c: "cache_middleware sample_json 0 (counting_handler 201 ''{}'') ?req (start (Some ?rd))
       = (Inr \<lparr>status_code = 201, body_iterator = [''{}'']\<rparr>,
          \<lparr>store = Some \<lparr>reachable = True, entries = [(''GET:/api/submissions/'', ''[]'', 100)]\<rparr>,
             world = 1,
             log = [Handler_called, Invalidated 1 ''/api/forms/*'' ''POST'']\<rparr>)"
    by code_simp
  from mutation_then_sweep
         [where h = "counting_handler 201 ''{}''" and req = ?req and g = "start (Some ?rd)"
            and js = sample_json and now = 0, OF h1 h2 h3 h4 h5] h1 h2 c
  show ?thesis by blast
qed

text \<open>
  C4 as stated fails: the path of this POST contains \<^verbatim>\<open>/submissions\<close>, and the live key
  \<^verbatim>\<open>GET:/api/submissions/\<close> matches \<^verbatim>\<open>GET:/api/submissions*\<close>; the path also contains
  \<^verbatim>\<open>/forms\<close>, so only the forms keys are swept and the submissions key stays.
\<close>

theorem forms_path_keeps_submissions_keys:
  "str_contains ''/submissions'' (req_path (POST ''/api/forms/1/submissions''))
   \<and> glob_match ''GET:/api/submissions*'' ''GET:/api/submissions/''
   \<and> cache_middleware sample_json 0 (counting_handler 201 ''{}'') (POST ''/api/forms/1/submissions'')
         (start (Some \<lparr>reachable = True, entries = [(''GET:/api/submissions/'', ''[]'', 100)]\<rparr>))
       = (Inr \<lparr>status_code = 201, body_iterator = [''{}'']\<rparr>,
          \<lparr>store = Some \<lparr>reachable = True, entries = [(''GET:/api/submissions/'', ''[]'', 100)]\<rparr>,
             world = 1,
             log = [Handler_called, Invalidated 0 ''/api/forms/*'' ''POST'']\<rparr>)"
  by code_simp

subsection \<open>An unreachable store\<close>

lemma cache_ops_down:
  assumes "r = None \<or> (\<exists>rd. r = Some rd \<and> \<not> reachable rd)"
  shows "cache_get js now r key = PNone" and "cache_set js now r key v ttl = r"
    and "cache_delete r key = r" and "cache_delete_pattern now r pat = (0, r)"
    and "cache_clear r = r"
  using assms
  by (auto simp: cache_get_def cache_set_def cache_delete_def cache_delete_pattern_def
        cache_clear_def redis_get_def redis_setex_def redis_delete_def redis_scan_iter_def
        redis_flushdb_def split: option.splits)

lemma middleware_store_down:
  assumes "store g = None \<or> (\<exists>rd. store g = Some rd \<and> \<not> reachable rd)"
    and "h req (world g) = (resp, w')"
  shows "cache_middleware js now h req g =
           (if req_method req = ''GET'' \<and> prefix ''/api/'' (req_path req) then
              if status_code resp = 200 then
                (case loads js (sent_body resp) of
                   None \<Rightarrow>
                     (Inr (resp\<lparr>body_iterator := []\<rparr>),
                      g\<lparr>world := w',
                        log := log g @ [Cache_miss (req_path req), Handler_called, Cache_error]\<rparr>)
                 | Some data \<Rightarrow>
                     (Inr \<lparr>status_code = 200, body_iterator = [sent_body resp]\<rparr>,
                      g\<lparr>world := w',
                        log := log g @ [Cache_miss (req_path req), Handler_called,
                                        Cached (req_path req)]\<rparr>))
              else (Inr resp,
                    g\<lparr>world := w', log := log g @ [Cache_miss (req_path req), Handler_called]\<rparr>)
            else if req_method req \<in> {''POST'', ''PUT'', ''DELETE''} \<and> prefix ''/api/'' (req_path req)
                    \<and> (str_contains ''/forms'' (req_path req)
                         \<or> str_contains ''/create_form'' (req_path req)) then
              (Inr resp,
               g\<lparr>world := w',
                 log := log g @ [Handler_called, Invalidated 0 ''/api/forms/*'' (req_method req)]\<rparr>)
            else if req_method req \<in> {''POST'', ''PUT'', ''DELETE''} \<and> prefix ''/api/'' (req_path req)
                    \<and> str_contains ''/submissions'' (req_path req) then
              (Inr resp,
               g\<lparr>world := w',
                 log := log g @ [Handler_called, Invalidated 0 ''/api/submissions/*'' (req_method req)]\<rparr>)
            else (Inr resp, g\<lparr>world := w', log := log g @ [Handler_called]\<rparr>))"
proof -
  note d = cache_ops_down [OF assms(1)]
  show ?thesis
  proof (cases "req_method req = ''GET'' \<and> prefix ''/api/'' (req_path req)")
    case True
    then show ?thesis
      using assms(2)
      by (auto simp: cache_middleware_def Let_def call_next_def cache_response_def d sent_body_def
            split: option.splits)
  next
    case False
    then show ?thesis
      using assms(2)
      by (auto simp: cache_middleware_def Let_def call_next_def invalidate_def d)
  qed
qed



text \<open>
  The middleware over an unreachable store, against the handler. The handler is
  invoked exactly once (the world is the one it leaves), the store is unchanged, and
  the response has the handler's status; its body is the handler's body, except for a
  GET under \<^verbatim>\<open>/api/\<close> answered 200 with a body that does not decode as JSON, where the
  body sent is empty.
\<close>

theorem store_down_passes_through:
  assumes "store g = None \<or> (\<exists>rd. store g = Some rd \<and> \<not> reachable rd)"
    and "h req (world g) = (resp, w')"
  shows "\<exists>resp' g'. cache_middleware js now h req g = (Inr resp', g')
           \<and> world g' = w' \<and> store g' = store g
           \<and> status_code resp' = status_code resp
           \<and> sent_body resp' =
               (if req_method req = ''GET'' \<and> prefix ''/api/'' (req_path req)
                   \<and> status_code resp = 200 \<and> loads js (sent_body resp) = None
                then [] else sent_body resp)"
  unfolding middleware_store_down
              [where g = g and h = h and req = req and js = js and now = now, OF assms]
  by (auto simp: sent_body_def split: option.splits)

theorem store_down_passes_through_witness:
  "cache_middleware sample_json 0 (counting_handler 200 ''[1,2]'') (GET ''/api/forms/'') (start None)
     = (Inr \<lparr>status_code = 200, body_iterator = [''[1,2]'']\<rparr>,
        \<lparr>store = None, world = 1,
           log = [Cache_miss ''/api/forms/'', Handler_called, Cached ''/api/forms/'']\<rparr>)"
proof -
  have h1: "store (start None) = None \<or> (\<exists>rd. store (start None) = Some rd \<and> \<not> reachable rd)"
    by (simp add: start_def)
  have h2: "counting_handler 200 ''[1,2]'' (GET ''/api/forms/'') (world (start None))
              = (\<lparr>status_code = 200, body_iterator = [''[1,2]'']\<rparr>, 1)"
    by (simp add: counting_handler_def start_def)
  have c: "cache_middleware sample_json 0 (counting_handler 200 ''[1,2]'') (GET ''/api/forms/'') (start None)
     = (Inr \<lparr>status_code = 200, body_iterator = [''[1,2]'']\<rparr>,
        \<lparr>store = None, world = 1,
           log = [Cache_miss ''/api/forms/'', Handler_called, Cached ''/api/forms/'']\<rparr>)"
    by code_simp
  from store_down_passes_through
         [where h = "counting_handler 200 ''[1,2]''" and req = "GET ''/api/forms/''"
            and g = "start None" and js = sample_json and now = 0, OF h1 h2] c
  show ?thesis by blast
qed

text \<open>
  A body that does not decode is lost, whatever the state of the store. A GET under
  \<^verbatim>\<open>/api/\<close> whose handler answers 200 with the body \<^verbatim>\<open>hello\<close> gets a response with
  nothing left in its body iterator, over a reachable store, an unreachable one and no
  store alike: joining the chunks for \<^verbatim>\<open>json.loads\<close> exhausted the iterator, and the
  \<^verbatim>\<open>except\<close> branch returns that same response object, where the branch for a
  decoded body sends the joined body again.
\<close>

theorem undecodable_body_is_lost:
  "loads sample_json ''hello'' = None
   \<and> sent_body (fst (counting_handler 200 ''hello'' (GET ''/api/forms/'') 0)) = ''hello''
   \<and> fst (cache_middleware sample_json 0 (counting_handler 200 ''hello'') (GET ''/api/forms/'')
          (start (Some \<lparr>reachable = True, entries = []\<rparr>)))
       = Inr \<lparr>status_code = 200, body_iterator = []\<rparr>
   \<and> fst (cache_middleware sample_json 0 (counting_handler 200 ''hello'') (GET ''/api/forms/'')
          (start (Some \<lparr>reachable = False, entries = []\<rparr>)))
       = Inr \<lparr>status_code = 200, body_iterator = []\<rparr>
   \<and> cache_middleware sample_json 0 (counting_handler 200 ''hello'') (GET ''/api/forms/'') (start None)
       = (Inr \<lparr>status_code = 200, body_iterator = []\<rparr>,
          \<lparr>store = None, world = 1,
             log = [Cache_miss ''/api/forms/'', Handler_called, Cache_error]\<rparr>)"
  by code_simp

end
